theory Spec2Isabelle
  imports Complex_Main
begin

section \<open>Errors\<close>

text \<open>
  The C++ source raises no exception of its own.  The model makes explicit what the
  source leaves to the machine: an access outside a buffer (undefined behaviour in C++)
  is \<open>OutOfBounds\<close>, a division of integers by zero is \<open>DivisionByZero\<close>, a pointer
  to no node is \<open>InvalidPointer\<close>, a function that ends without its \<open>return\<close> is
  \<open>NoReturnValue\<close>, and a recursion cut by its fuel is \<open>OutOfFuel\<close>.
  \<open>ShapeError\<close> and \<open>UnsupportedAxisError\<close> are the errors of the shape descriptor
  (file shape.h), which is not among the sources.
\<close>

datatype error =
    ShapeError
  | UnsupportedAxisError
  | OutOfBounds
  | DivisionByZero
  | InvalidPointer
  | NoReturnValue
  | OutOfFuel

definition bindE :: "error + 'a \<Rightarrow> ('a \<Rightarrow> error + 'b) \<Rightarrow> error + 'b" where
  "bindE x f = (case x of Inl e \<Rightarrow> Inl e | Inr v \<Rightarrow> f v)"

fun foldE :: "('x \<Rightarrow> 'st \<Rightarrow> error + 'st) \<Rightarrow> 'x list \<Rightarrow> 'st \<Rightarrow> error + 'st" where
  "foldE f [] st = Inr st"
| "foldE f (x # xs) st = (case f x st of Inl e \<Rightarrow> Inl e | Inr st' \<Rightarrow> foldE f xs st')"

fun mapE :: "('x \<Rightarrow> error + 'y) \<Rightarrow> 'x list \<Rightarrow> error + 'y list" where
  "mapE f [] = Inr []"
| "mapE f (x # xs) =
     (case f x of Inl e \<Rightarrow> Inl e
      | Inr y \<Rightarrow> (case mapE f xs of Inl e \<Rightarrow> Inl e | Inr ys \<Rightarrow> Inr (y # ys)))"

section \<open>The shape descriptor\<close>

text \<open>
  Modelled from the spec: class \<open>Shape\<close> of shape.h, which tensor.h includes and which
  is not among the sources.  The spec (4.1) gives a fixed-rank-5 descriptor: built from
  five sizes, each at least 1, else ShapeError; \<open>dim(axis)\<close> (the source's
  \<open>shape[axis]\<close>); \<open>count()\<close>, the product of the sizes (the source's \<open>size()\<close>);
  \<open>linearIndex\<close> with row-major strides, the stride of axis 4 being 1 (the source's
  \<open>sub2ind\<close>); \<open>withDim(axis, newSize)\<close> (the source's \<open>set(newSize, axis)\<close>).
\<close>

type_synonym Shape = "nat list"

definition Shape_ok :: "Shape \<Rightarrow> bool" where
  "Shape_ok s = (length s = 5 \<and> list_all (\<lambda>d. 1 \<le> d) s)"

definition mkShape :: "nat list \<Rightarrow> error + Shape" where
  "mkShape sz = (if length sz = 5 \<and> list_all (\<lambda>d. 1 \<le> d) sz then Inr sz else Inl ShapeError)"

definition shape_size :: "Shape \<Rightarrow> nat" where
  "shape_size s = s ! 0 * s ! 1 * s ! 2 * s ! 3 * s ! 4"

definition sub2ind :: "Shape \<Rightarrow> nat \<Rightarrow> nat \<Rightarrow> nat \<Rightarrow> nat \<Rightarrow> nat \<Rightarrow> nat" where
  "sub2ind s i j k l m =
     i * (s ! 1 * s ! 2 * s ! 3 * s ! 4) + j * (s ! 2 * s ! 3 * s ! 4)
       + k * (s ! 3 * s ! 4) + l * s ! 4 + m"

definition shape_set :: "Shape \<Rightarrow> nat \<Rightarrow> nat \<Rightarrow> error + Shape" where
  "shape_set s v axis =
     (if axis < 5 then (if 1 \<le> v then Inr (s[axis := v]) else Inl ShapeError)
      else Inl UnsupportedAxisError)"

section \<open>Tensors (tensor.h)\<close>

text \<open>
  \<open>Tensor<T>\<close> holds a shape and a buffer; the buffer is the list \<open>data\<close>.  The element
  type \<open>T\<close> is a template parameter; the arithmetic below is stated for an exact
  ordered field (\<open>real\<close>), so the rounding of a floating-point \<open>T\<close> is not modelled.
  Sizes and indices are the source's \<open>int\<close>; the model takes them as \<open>nat\<close> (a size is
  at least 1, a loop index starts at 0) and does not model the overflow of \<open>int\<close>.
\<close>

record 'a Tensor =
  shape :: Shape
  data :: "'a list"

definition Tensor_ok :: "'a Tensor \<Rightarrow> bool" where
  "Tensor_ok t = (Shape_ok (shape t) \<and> length (data t) = shape_size (shape t))"

text \<open>\<open>length()\<close> is \<open>shape.size()\<close>.\<close>

definition tlength :: "'a Tensor \<Rightarrow> nat" where
  "tlength t = shape_size (shape t)"

text \<open>Reading and writing the buffer: \<open>data[idx]\<close>, checked in the model.\<close>

definition load :: "'a list \<Rightarrow> nat \<Rightarrow> error + 'a" where
  "load d idx = (if idx < length d then Inr (d ! idx) else Inl OutOfBounds)"

definition store :: "'a list \<Rightarrow> nat \<Rightarrow> 'a \<Rightarrow> error + 'a list" where
  "store d idx v = (if idx < length d then Inr (d[idx := v]) else Inl OutOfBounds)"

text \<open>\<open>get(idx)\<close>, \<open>at(i, j, k, l, m)\<close> and \<open>set(value, i, j, k, l, m)\<close>.\<close>

definition tensor_get :: "'a Tensor \<Rightarrow> nat \<Rightarrow> error + 'a" where
  "tensor_get t idx = load (data t) idx"

definition tensor_at :: "'a Tensor \<Rightarrow> nat \<Rightarrow> nat \<Rightarrow> nat \<Rightarrow> nat \<Rightarrow> nat \<Rightarrow> error + 'a" where
  "tensor_at t i j k l m = load (data t) (sub2ind (shape t) i j k l m)"

definition tensor_set :: "'a \<Rightarrow> nat \<Rightarrow> nat \<Rightarrow> nat \<Rightarrow> nat \<Rightarrow> nat \<Rightarrow> 'a Tensor \<Rightarrow> error + 'a Tensor" where
  "tensor_set v i j k l m t =
     (case store (data t) (sub2ind (shape t) i j k l m) v of
        Inl e \<Rightarrow> Inl e
      | Inr d \<Rightarrow> Inr (t\<lparr>data := d\<rparr>))"

text \<open>
  The constructor \<open>Tensor(Shape &shape)\<close> allocates \<open>new T[length()]\<close> and leaves the
  elements uninitialised.  Every function below overwrites all of them before any is
  read; the model fills the fresh buffer with 0.
\<close>

definition allocate :: "Shape \<Rightarrow> ('a::zero) Tensor" where
  "allocate s = \<lparr>shape = s, data = replicate (shape_size s) 0\<rparr>"

text \<open>
  \<open>foreach\<close>: five nested loops, sample outermost, channel innermost, calling
  \<open>func(n, f, w, h, c)\<close>.  The callback mutates what it captured by reference; the
  model passes that state through.
\<close>

definition foreach_idx :: "Shape \<Rightarrow> (nat \<times> nat \<times> nat \<times> nat \<times> nat) list" where
  "foreach_idx s =
     concat (map (\<lambda>n. concat (map (\<lambda>f. concat (map (\<lambda>w. concat (map (\<lambda>h.
       map (\<lambda>c. (n, f, w, h, c)) [0..<s ! 4])
         [0..<s ! 3])) [0..<s ! 2])) [0..<s ! 1])) [0..<s ! 0])"

definition foreach ::
  "Shape \<Rightarrow> (nat \<Rightarrow> nat \<Rightarrow> nat \<Rightarrow> nat \<Rightarrow> nat \<Rightarrow> 'st \<Rightarrow> error + 'st) \<Rightarrow> 'st \<Rightarrow> error + 'st" where
  "foreach s func st = foldE (\<lambda>(n, f, w, h, c). func n f w h c) (foreach_idx s) st"

text \<open>\<open>foreach_assign\<close>: \<open>data[shape.sub2ind(i, j, k, l, m)] = func(i, j, k, l, m)\<close>.\<close>

definition foreach_assign ::
  "(nat \<Rightarrow> nat \<Rightarrow> nat \<Rightarrow> nat \<Rightarrow> nat \<Rightarrow> error + 'a) \<Rightarrow> 'a Tensor \<Rightarrow> error + 'a Tensor" where
  "foreach_assign func t =
     foreach (shape t)
       (\<lambda>i j k l m t'. case func i j k l m of
            Inl e \<Rightarrow> Inl e
          | Inr v \<Rightarrow> tensor_set v i j k l m t') t"

text \<open>\<open>foreach_elem\<close> and \<open>foreach_elem_assign\<close>: one loop over \<open>0 .. length() - 1\<close>.\<close>

definition foreach_elem :: "'a Tensor \<Rightarrow> (nat \<Rightarrow> 'st \<Rightarrow> error + 'st) \<Rightarrow> 'st \<Rightarrow> error + 'st" where
  "foreach_elem t func st = foldE func [0..<tlength t] st"

definition foreach_elem_assign :: "(nat \<Rightarrow> error + 'a) \<Rightarrow> 'a Tensor \<Rightarrow> error + 'a Tensor" where
  "foreach_elem_assign func t =
     foldE (\<lambda>i t'. case func i of
              Inl e \<Rightarrow> Inl e
            | Inr v \<Rightarrow> (case store (data t') i v of
                          Inl e \<Rightarrow> Inl e
                        | Inr d \<Rightarrow> Inr (t'\<lparr>data := d\<rparr>)))
       [0..<tlength t] t"

text \<open>
  \<open>__foreach_elem_assign_(func)\<close>: a fresh tensor of the same shape whose element \<open>i\<close>
  is \<open>func(data[i])\<close>.
\<close>

definition priv_foreach_elem_assign :: "('a \<Rightarrow> 'a) \<Rightarrow> ('a::zero) Tensor \<Rightarrow> error + 'a Tensor" where
  "priv_foreach_elem_assign func t =
     foreach_elem_assign
       (\<lambda>i. case load (data t) i of Inl e \<Rightarrow> Inl e | Inr x \<Rightarrow> Inr (func x))
       (allocate (shape t))"

text \<open>The scalar function \<open>__sigmoid_\<close> and \<open>Tensor::sigmoid\<close>.\<close>

definition priv_sigmoid :: "real \<Rightarrow> real" where
  "priv_sigmoid x = 1 / (1 + exp x)"

definition sigmoid :: "real Tensor \<Rightarrow> error + real Tensor" where
  "sigmoid t = priv_foreach_elem_assign priv_sigmoid t"

text \<open>
  \<open>operator ==\<close>: \<open>result\<close> starts true and is set to false at every element \<open>i\<close> with
  \<open>fabs(this->get(i) - a.get(i)) > 10e-6\<close>.  The literal \<open>10e-6\<close> is \<open>10 * 10^-6\<close>.
\<close>

definition tensor_eq :: "real Tensor \<Rightarrow> real Tensor \<Rightarrow> error + bool" where
  "tensor_eq t a =
     foreach_elem t
       (\<lambda>i result. case tensor_get t i of
            Inl e \<Rightarrow> Inl e
          | Inr x \<Rightarrow> (case tensor_get a i of
                        Inl e \<Rightarrow> Inl e
                      | Inr y \<Rightarrow> Inr (if \<bar>x - y\<bar> > 10 / 10 ^ 6 then False else result)))
       True"

text \<open>\<open>zeros(shape)\<close> and \<open>ones(shape)\<close>: allocate, then assign every element.\<close>

definition zeros :: "Shape \<Rightarrow> error + ('a::zero) Tensor" where
  "zeros s = foreach_elem_assign (\<lambda>i. Inr 0) (allocate s)"

definition ones :: "Shape \<Rightarrow> error + ('a::{zero,one}) Tensor" where
  "ones s = foreach_elem_assign (\<lambda>i. Inr 1) (allocate s)"

text \<open>
  \<open>__foreach_assign_(tensor, func)\<close>, the body of the binary operators.  The output is
  allocated with the shape of the argument \<open>tensor\<close>; \<open>axis\<close> is the first axis on which
  the two shapes differ (\<open>None\<close> for the source's \<open>-1\<close>); the switch reads the argument
  at index 0 of that axis.
\<close>

definition first_diff_axis :: "Shape \<Rightarrow> Shape \<Rightarrow> nat option" where
  "first_diff_axis s m_shape = find (\<lambda>i. s ! i \<noteq> m_shape ! i) [0..<5]"

definition priv_foreach_assign ::
  "('a \<Rightarrow> 'a \<Rightarrow> 'a) \<Rightarrow> ('a::zero) Tensor \<Rightarrow> 'a Tensor \<Rightarrow> error + 'a Tensor" where
  "priv_foreach_assign func t x =
     (let m_shape = shape x;
          out = allocate m_shape;
          axis = first_diff_axis (shape t) m_shape
      in foreach_assign
           (\<lambda>s f i j c.
              bindE (tensor_at t s f i j c) (\<lambda>a.
              bindE (if axis = Some 0 then tensor_at x 0 f i j c
                     else if axis = Some 1 then tensor_at x s 0 i j c
                     else if axis = Some 2 then tensor_at x s f 0 j c
                     else if axis = Some 3 then tensor_at x s f i 0 c
                     else if axis = Some 4 then tensor_at x s f i j 0
                     else tensor_at x s f i j c) (\<lambda>b.
              Inr (func a b))))
           out)"

text \<open>The matrix operators \<open>+ - * /\<close> and the scalar operators \<open>+ - * /\<close>.\<close>

definition tensor_plus :: "real Tensor \<Rightarrow> real Tensor \<Rightarrow> error + real Tensor" where
  "tensor_plus t x = priv_foreach_assign (\<lambda>a b. a + b) t x"

definition tensor_minus :: "real Tensor \<Rightarrow> real Tensor \<Rightarrow> error + real Tensor" where
  "tensor_minus t x = priv_foreach_assign (\<lambda>a b. a - b) t x"

definition tensor_times :: "real Tensor \<Rightarrow> real Tensor \<Rightarrow> error + real Tensor" where
  "tensor_times t x = priv_foreach_assign (\<lambda>a b. a * b) t x"

definition tensor_divide :: "real Tensor \<Rightarrow> real Tensor \<Rightarrow> error + real Tensor" where
  "tensor_divide t x = priv_foreach_assign (\<lambda>a b. a / b) t x"

definition scalar_plus :: "real Tensor \<Rightarrow> real \<Rightarrow> error + real Tensor" where
  "scalar_plus t b = priv_foreach_elem_assign (\<lambda>x. x + b) t"

definition scalar_minus :: "real Tensor \<Rightarrow> real \<Rightarrow> error + real Tensor" where
  "scalar_minus t b = priv_foreach_elem_assign (\<lambda>x. x - b) t"

definition scalar_times :: "real Tensor \<Rightarrow> real \<Rightarrow> error + real Tensor" where
  "scalar_times t b = priv_foreach_elem_assign (\<lambda>x. x * b) t"

definition scalar_divide :: "real Tensor \<Rightarrow> real \<Rightarrow> error + real Tensor" where
  "scalar_divide t b = priv_foreach_elem_assign (\<lambda>x. x / b) t"

text \<open>
  \<open>permute(order)\<close>: \<open>size[i] = shape[order[i]]\<close>; the output element at
  \<open>(i, j, k, l, m)\<close> is the input element at \<open>subs\<close>, where \<open>subs[order[0]] = i\<close>, ...,
  \<open>subs[order[4]] = m\<close> are assigned in this order to an array of five zeros.  Reading
  \<open>order\<close> or \<open>shape\<close> and writing \<open>subs\<close> outside their five cells is \<open>OutOfBounds\<close>.
\<close>

definition permute_subs :: "nat list \<Rightarrow> nat \<Rightarrow> nat \<Rightarrow> nat \<Rightarrow> nat \<Rightarrow> nat \<Rightarrow> error + nat list" where
  "permute_subs order i j k l m =
     foldE (\<lambda>(p, v) subs. bindE (load order p) (\<lambda>a. store subs a v))
       [(0, i), (1, j), (2, k), (3, l), (4, m)] [0, 0, 0, 0, 0]"

definition permute :: "nat list \<Rightarrow> ('a::zero) Tensor \<Rightarrow> error + 'a Tensor" where
  "permute order t =
     bindE (mapE (\<lambda>i. bindE (load order i) (\<lambda>a. load (shape t) a)) [0..<5]) (\<lambda>sz.
     bindE (mkShape sz) (\<lambda>shape_out.
     bindE (zeros shape_out) (\<lambda>out.
     foreach_assign
       (\<lambda>i j k l m.
          bindE (permute_subs order i j k l m) (\<lambda>subs.
          tensor_at t (subs ! 0) (subs ! 1) (subs ! 2) (subs ! 3) (subs ! 4)))
       out)))"

text \<open>
  \<open>reduce_sum(axis)\<close>.  Each case of the switch runs \<open>foreach\<close> over the input's shape
  and adds the input element into the output cell with index 0 on the axis.  Case 0 has
  no \<open>break\<close>: control falls through into case 1, which runs on the same output.  The
  default case prints a message and returns the zero tensor.
\<close>

definition reduce_step ::
  "nat \<Rightarrow> real Tensor \<Rightarrow> nat \<Rightarrow> nat \<Rightarrow> nat \<Rightarrow> nat \<Rightarrow> nat \<Rightarrow> real Tensor \<Rightarrow> error + real Tensor" where
  "reduce_step axis t i j k l m out =
     (let i' = (if axis = 0 then 0 else i);
          j' = (if axis = 1 then 0 else j);
          k' = (if axis = 2 then 0 else k);
          l' = (if axis = 3 then 0 else l);
          m' = (if axis = 4 then 0 else m)
      in bindE (tensor_at out i' j' k' l' m') (\<lambda>old.
         bindE (tensor_at t i j k l m) (\<lambda>x.
         tensor_set (old + x) i' j' k' l' m' out)))"

definition reduce_sum :: "nat \<Rightarrow> real Tensor \<Rightarrow> error + real Tensor" where
  "reduce_sum axis t =
     bindE (shape_set (shape t) 1 axis) (\<lambda>shape_out.
     bindE (zeros shape_out) (\<lambda>out.
       if axis = 0 then
         bindE (foreach (shape t) (reduce_step 0 t) out) (\<lambda>out'.
         foreach (shape t) (reduce_step 1 t) out')
       else if axis = 1 then foreach (shape t) (reduce_step 1 t) out
       else if axis = 2 then foreach (shape t) (reduce_step 2 t) out
       else if axis = 3 then foreach (shape t) (reduce_step 3 t) out
       else if axis = 4 then foreach (shape t) (reduce_step 4 t) out
       else Inr out))"

text \<open>\<open>reduce_mean(axis)\<close>: \<open>out = reduce_sum(axis); N = shape[axis]; return out / N\<close>.\<close>

definition reduce_mean :: "nat \<Rightarrow> real Tensor \<Rightarrow> error + real Tensor" where
  "reduce_mean axis t =
     bindE (reduce_sum axis t) (\<lambda>out.
     bindE (load (shape t) axis) (\<lambda>N.
     scalar_divide out (real N)))"

text \<open>
  \<open>__pooling_(width, func)\<close>.  The output has sizes
  \<open>shape[2] / width\<close> and \<open>shape[3] / width\<close> on the axes 2 and 3.  For each output
  cell, \<open>value\<close> starts as the first element of the window, and then \<open>func(value, curr)\<close>
  is applied for every element \<open>curr\<close> of the window, the first element included.
\<close>

definition window_idx :: "nat \<Rightarrow> (nat \<times> nat) list" where
  "window_idx width = concat (map (\<lambda>pk. map (\<lambda>pl. (pk, pl)) [0..<width]) [0..<width])"

definition priv_pooling :: "nat \<Rightarrow> (real \<Rightarrow> real \<Rightarrow> real) \<Rightarrow> real Tensor \<Rightarrow> error + real Tensor" where
  "priv_pooling width func t =
     (if width = 0 then Inl DivisionByZero
      else
        bindE (mkShape [shape t ! 0, shape t ! 1, shape t ! 2 div width,
                        shape t ! 3 div width, shape t ! 4]) (\<lambda>sz.
        bindE (zeros sz) (\<lambda>out.
        foreach_assign
          (\<lambda>oi oj ok ol om.
             bindE (tensor_at t oi oj (ok * width) (ol * width) om) (\<lambda>value0.
             foldE (\<lambda>(pk, pl) v.
                      bindE (tensor_at t oi oj (ok * width + pk) (ol * width + pl) om) (\<lambda>curr.
                      Inr (func v curr)))
               (window_idx width) value0))
          out)))"

definition max_pooling :: "nat \<Rightarrow> real Tensor \<Rightarrow> error + real Tensor" where
  "max_pooling width t = priv_pooling width (\<lambda>a b. if a > b then a else b) t"

definition min_pooling :: "nat \<Rightarrow> real Tensor \<Rightarrow> error + real Tensor" where
  "min_pooling width t = priv_pooling width (\<lambda>a b. if a < b then a else b) t"

definition avg_pooling :: "nat \<Rightarrow> real Tensor \<Rightarrow> error + real Tensor" where
  "avg_pooling width t =
     bindE (priv_pooling width (\<lambda>a b. a + b) t) (\<lambda>out.
     scalar_divide out (real (width * width)))"

section \<open>The computation graph (graph.h)\<close>

text \<open>
  Nodes live on the heap and are referred to by pointers (\<open>Node<T>*\<close>); the model keeps
  them in a list and a pointer is an index into it.  The classes \<open>Variable\<close>,
  \<open>Placeholder\<close> and \<open>Operation\<close> (with its subclasses) derive from \<open>Node\<close>; a node
  record carries the fields of \<open>Node\<close> (\<open>output\<close>, here \<open>node_output\<close>, and \<open>consumers\<close>), of \<open>Operation\<close>
  (\<open>input_nodes\<close>) and of \<open>Variable\<close> (\<open>value\<close>, here \<open>var_value\<close>).
\<close>

datatype NodeType = VARIABLE | PLACEHOLDER | OPERATION

datatype OpClass =
    Add | MatMul | Conv2D | Conv3D | MaxPooling | MinPooling | AvgPooling | Reshape
  | Flatten | FullConnected | Sigmoid | ReLU | LeakyReLU | Softmax | MSE | CrossEntrpy

datatype NodeClass = Variable | Placeholder | Operation OpClass

record 't Node =
  node_class :: NodeClass
  node_output :: 't
  consumers :: "nat list"
  input_nodes :: "nat list"
  var_value :: 't

type_synonym 't heap = "'t Node list"

definition getNodeType :: "'t Node \<Rightarrow> NodeType" where
  "getNodeType node =
     (case node_class node of
        Variable \<Rightarrow> VARIABLE
      | Placeholder \<Rightarrow> PLACEHOLDER
      | Operation oc \<Rightarrow> OPERATION)"

definition deref :: "'t heap \<Rightarrow> nat \<Rightarrow> error + 't Node" where
  "deref h p = (if p < length h then Inr (h ! p) else Inl InvalidPointer)"

text \<open>
  The graph is generic in the tensor type \<open>'t\<close>.  The record below collects what the
  graph code takes from the tensors: \<open>Tensor0\<close>, the default-constructed \<open>Tensor()\<close>
  that a fresh node holds as \<open>output\<close> and that \<open>std::map::operator[]\<close> inserts for a
  missing key; \<open>op_compute\<close>, the virtual \<open>compute\<close> of each operation class;
  \<open>op_plus\<close>, the \<open>operator +\<close> that \<open>accumulate\<close> applies; \<open>acc_value\<close>, the initial
  value \<open>value\<close> that \<open>Node::backward\<close> passes to \<open>accumulate\<close> (\<open>Node\<close> declares no
  such member); \<open>op_backward\<close>, the tensor expression returned by the classes that
  override \<open>backward\<close> (it calls \<open>ops::grad_relu\<close> of ops.h and a two-argument
  \<open>conv2d\<close>, neither among the sources), from the accumulated gradient when the
  override uses it and from the input values.
\<close>

record 't TensorOps =
  Tensor0 :: 't
  op_compute :: "OpClass \<Rightarrow> 't list \<Rightarrow> error + 't"
  op_plus :: "'t \<Rightarrow> 't \<Rightarrow> error + 't"
  acc_value :: 't
  op_backward :: "OpClass \<Rightarrow> 't option \<Rightarrow> 't list \<Rightarrow> error + 't"

text \<open>
  The constructors.  \<open>Variable\<close> draws its value at random: the model takes the value as
  an argument.  \<open>Operation(inputs)\<close> stores the inputs and then appends itself to the
  \<open>consumers\<close> of each input, in order.  Each constructor returns the new pointer and
  the new heap.
\<close>

definition new_Variable :: "'t TensorOps \<Rightarrow> 't \<Rightarrow> 't heap \<Rightarrow> nat \<times> 't heap" where
  "new_Variable ops v h =
     (length h, h @ [\<lparr>node_class = Variable, node_output = Tensor0 ops, consumers = [],
                      input_nodes = [], var_value = v\<rparr>])"

definition new_Placeholder :: "'t TensorOps \<Rightarrow> 't heap \<Rightarrow> nat \<times> 't heap" where
  "new_Placeholder ops h =
     (length h, h @ [\<lparr>node_class = Placeholder, node_output = Tensor0 ops, consumers = [],
                      input_nodes = [], var_value = Tensor0 ops\<rparr>])"

definition new_Operation ::
  "'t TensorOps \<Rightarrow> OpClass \<Rightarrow> nat list \<Rightarrow> 't heap \<Rightarrow> error + (nat \<times> 't heap)" where
  "new_Operation ops oc inputs h =
     (let this = length h;
          h1 = h @ [\<lparr>node_class = Operation oc, node_output = Tensor0 ops, consumers = [],
                      input_nodes = inputs, var_value = Tensor0 ops\<rparr>]
      in bindE (foldE (\<lambda>i h'. bindE (deref h' i) (\<lambda>n.
                          Inr (h'[i := n\<lparr>consumers := consumers n @ [this]\<rparr>])))
                  inputs h1) (\<lambda>h2.
         Inr (this, h2)))"

text \<open>\<open>Operation::getInputValues\<close>: the cached outputs of the input nodes, in order.\<close>

definition getInputValues :: "'t heap \<Rightarrow> 't Node \<Rightarrow> error + 't list" where
  "getInputValues h node =
     mapE (\<lambda>parent. bindE (deref h parent) (\<lambda>n. Inr (node_output n))) (input_nodes node)"

text \<open>
  \<open>backward\<close>.  \<open>Node::backward\<close> calls \<open>backward\<close> on every consumer, collects the
  results in \<open>deltas\<close> and returns \<open>accumulate(deltas.begin(), deltas.end(), value)\<close>.
  The call is virtual: \<open>backward\<close> below dispatches on the class.  \<open>Variable\<close> assigns
  the result of \<open>Node::backward\<close> to \<open>grad\<close> and ends without a \<open>return\<close>;
  \<open>Conv2D\<close> and \<open>Conv3D\<close> call \<open>Node::backward\<close> and return an expression of its
  result; \<open>ReLU\<close> calls it and drops the result; \<open>LeakyReLU\<close>, \<open>MSE\<close> and
  \<open>CrossEntrpy\<close> do not call it; every other class inherits it.  Besides the tensor,
  the model returns the list of the nodes whose \<open>backward\<close> ran, in the order of the
  calls.  The recursion follows the \<open>consumers\<close> pointers and is cut by fuel.
\<close>

fun backward :: "'t TensorOps \<Rightarrow> nat \<Rightarrow> 't heap \<Rightarrow> nat \<Rightarrow> error + ('t \<times> nat list)"
  and Node_backward :: "'t TensorOps \<Rightarrow> nat \<Rightarrow> 't heap \<Rightarrow> nat \<Rightarrow> error + ('t \<times> nat list)"
  and backward_consumers ::
    "'t TensorOps \<Rightarrow> nat \<Rightarrow> 't heap \<Rightarrow> nat list \<Rightarrow> error + ('t list \<times> nat list)"
where
  "backward ops 0 h p = Inl OutOfFuel"
| "backward ops (Suc k) h p =
     (case deref h p of
        Inl e \<Rightarrow> Inl e
      | Inr node \<Rightarrow>
          (case node_class node of
             Variable \<Rightarrow>
               (case Node_backward ops k h p of
                  Inl e \<Rightarrow> Inl e
                | Inr (grad, calls) \<Rightarrow> Inl NoReturnValue)
           | Placeholder \<Rightarrow>
               (case Node_backward ops k h p of
                  Inl e \<Rightarrow> Inl e
                | Inr (delta, calls) \<Rightarrow> Inr (delta, p # calls))
           | Operation oc \<Rightarrow>
               if oc = Conv2D \<or> oc = Conv3D then
                 (case Node_backward ops k h p of
                    Inl e \<Rightarrow> Inl e
                  | Inr (grad, calls) \<Rightarrow>
                      bindE (getInputValues h node) (\<lambda>inputs.
                      bindE (op_backward ops oc (Some grad) inputs) (\<lambda>delta.
                      Inr (delta, p # calls))))
               else if oc = ReLU then
                 (case Node_backward ops k h p of
                    Inl e \<Rightarrow> Inl e
                  | Inr (grad, calls) \<Rightarrow>
                      bindE (getInputValues h node) (\<lambda>inputs.
                      bindE (op_backward ops oc None inputs) (\<lambda>delta.
                      Inr (delta, p # calls))))
               else if oc = LeakyReLU \<or> oc = MSE \<or> oc = CrossEntrpy then
                 bindE (getInputValues h node) (\<lambda>inputs.
                 bindE (op_backward ops oc None inputs) (\<lambda>delta.
                 Inr (delta, [p])))
               else
                 (case Node_backward ops k h p of
                    Inl e \<Rightarrow> Inl e
                  | Inr (delta, calls) \<Rightarrow> Inr (delta, p # calls))))"
| "Node_backward ops k h p =
     (case deref h p of
        Inl e \<Rightarrow> Inl e
      | Inr node \<Rightarrow>
          (case backward_consumers ops k h (consumers node) of
             Inl e \<Rightarrow> Inl e
           | Inr (deltas, calls) \<Rightarrow>
               bindE (foldE (\<lambda>d acc. op_plus ops acc d) deltas (acc_value ops)) (\<lambda>delta.
               Inr (delta, calls))))"
| "backward_consumers ops k h [] = Inr ([], [])"
| "backward_consumers ops k h (consumer # rest) =
     (case backward ops k h consumer of
        Inl e \<Rightarrow> Inl e
      | Inr (delta, calls) \<Rightarrow>
          (case backward_consumers ops k h rest of
             Inl e \<Rightarrow> Inl e
           | Inr (deltas, calls') \<Rightarrow> Inr (delta # deltas, calls @ calls')))"

text \<open>
  \<open>Graph\<close> and \<open>Graph::collect\<close>: three tests on the node type in sequence; an
  operation first collects each of its input nodes, in order, and then appends itself.
  The recursion follows the \<open>input_nodes\<close> pointers and is cut by fuel.
\<close>

record Graph =
  placeholders :: "nat list"
  variables :: "nat list"
  operations :: "nat list"

definition Graph_new :: Graph where
  "Graph_new = \<lparr>placeholders = [], variables = [], operations = []\<rparr>"

fun collect :: "nat \<Rightarrow> 't heap \<Rightarrow> nat \<Rightarrow> Graph \<Rightarrow> error + Graph"
  and collect_inputs :: "nat \<Rightarrow> 't heap \<Rightarrow> nat list \<Rightarrow> Graph \<Rightarrow> error + Graph"
where
  "collect 0 h rt g = Inl OutOfFuel"
| "collect (Suc k) h rt g =
     (case deref h rt of
        Inl e \<Rightarrow> Inl e
      | Inr node \<Rightarrow>
          (let g1 = (if getNodeType node = PLACEHOLDER
                     then g\<lparr>placeholders := placeholders g @ [rt]\<rparr> else g);
               g2 = (if getNodeType node = VARIABLE
                     then g1\<lparr>variables := variables g1 @ [rt]\<rparr> else g1)
           in if getNodeType node = OPERATION then
                (case collect_inputs k h (input_nodes node) g2 of
                   Inl e \<Rightarrow> Inl e
                 | Inr g3 \<Rightarrow> Inr (g3\<lparr>operations := operations g3 @ [rt]\<rparr>))
              else Inr g2))"
| "collect_inputs k h [] g = Inr g"
| "collect_inputs k h (i # rest) g =
     (case collect k h i g of
        Inl e \<Rightarrow> Inl e
      | Inr g' \<Rightarrow> collect_inputs k h rest g')"

text \<open>
  \<open>Session\<close>: the constructor collects the graph of its argument; \<open>run\<close> walks
  \<open>graph.getOperations()\<close>, the list \<open>operations\<close>, and sets the output of each node on
  it according to the node's type.  \<open>feed_dict[node]\<close> is \<open>std::map::operator[]\<close>: a
  missing key is inserted with a default-constructed tensor, which is returned.
\<close>

record Session =
  graph :: Graph

definition Session_new :: "nat \<Rightarrow> 't heap \<Rightarrow> nat \<Rightarrow> error + Session" where
  "Session_new k h operation =
     bindE (collect k h operation Graph_new) (\<lambda>g. Inr \<lparr>graph = g\<rparr>)"

definition getOperations :: "Graph \<Rightarrow> nat list" where
  "getOperations g = operations g"

definition setOutput :: "'t heap \<Rightarrow> nat \<Rightarrow> 't \<Rightarrow> 't heap" where
  "setOutput h p t = h[p := (h ! p)\<lparr>node_output := t\<rparr>]"

definition feed_index :: "'t TensorOps \<Rightarrow> (nat \<rightharpoonup> 't) \<Rightarrow> nat \<Rightarrow> 't \<times> (nat \<rightharpoonup> 't)" where
  "feed_index ops feed_dict p =
     (case feed_dict p of
        Some t \<Rightarrow> (t, feed_dict)
      | None \<Rightarrow> (Tensor0 ops, feed_dict(p \<mapsto> Tensor0 ops)))"

definition run_step ::
  "'t TensorOps \<Rightarrow> nat \<Rightarrow> 't heap \<times> (nat \<rightharpoonup> 't) \<Rightarrow> error + ('t heap \<times> (nat \<rightharpoonup> 't))" where
  "run_step ops p st =
     (case st of (h, feed_dict) \<Rightarrow>
        bindE (deref h p) (\<lambda>node.
          case getNodeType node of
            PLACEHOLDER \<Rightarrow>
              (case feed_index ops feed_dict p of
                 (t, feed_dict') \<Rightarrow> Inr (setOutput h p t, feed_dict'))
          | VARIABLE \<Rightarrow> Inr (setOutput h p (var_value node), feed_dict)
          | OPERATION \<Rightarrow>
              (case node_class node of
                 Operation oc \<Rightarrow>
                   bindE (getInputValues h node) (\<lambda>inputs.
                   bindE (op_compute ops oc inputs) (\<lambda>t.
                   Inr (setOutput h p t, feed_dict)))
               | _ \<Rightarrow> Inl InvalidPointer)))"

definition run ::
  "'t TensorOps \<Rightarrow> Session \<Rightarrow> (nat \<rightharpoonup> 't) \<Rightarrow> 't heap \<Rightarrow> error + ('t heap \<times> (nat \<rightharpoonup> 't))" where
  "run ops sess feed_dict h =
     foldE (run_step ops) (getOperations (graph sess)) (h, feed_dict)"

section \<open>Graphs for the examples\<close>

text \<open>
  A heap is well formed when every input pointer of a node points to an earlier node:
  the constructors only ever link a new operation to nodes that exist already.
  \<open>reaches h rt n\<close>: node \<open>n\<close> is reachable from \<open>rt\<close> along \<open>input_nodes\<close> pointers.
\<close>

definition heap_ok :: "'t heap \<Rightarrow> bool" where
  "heap_ok h = list_all (\<lambda>p. list_all (\<lambda>i. i < p) (input_nodes (h ! p))) [0..<length h]"

inductive reaches :: "'t heap \<Rightarrow> nat \<Rightarrow> nat \<Rightarrow> bool" for h :: "'t heap" where
  reaches_self: "rt < length h \<Longrightarrow> reaches h rt rt"
| reaches_input:
    "rt < length h \<Longrightarrow> getNodeType (h ! rt) = OPERATION \<Longrightarrow> i \<in> set (input_nodes (h ! rt))
       \<Longrightarrow> reaches h i n \<Longrightarrow> reaches h rt n"

text \<open>
  An instance of the tensor operations on integers, a scalar standing for a tensor:
  the default tensor is \<open>-1\<close>, \<open>Add::compute\<close> adds \<open>inputs[0]\<close> and \<open>inputs[1]\<close>, the
  other classes get no scalar counterpart (\<open>Operation::compute\<close> itself has an empty
  body), \<open>accumulate\<close> starts from 1, and the classes that override \<open>backward\<close> return
  \<open>inputs[0] - inputs[1]\<close>, as \<open>MSE\<close> and \<open>CrossEntrpy\<close> do.
\<close>

definition int_ops :: "int TensorOps" where
  "int_ops =
     \<lparr>Tensor0 = - 1,
      op_compute = (\<lambda>oc inputs.
         if oc = Add then bindE (load inputs 0) (\<lambda>x. bindE (load inputs 1) (\<lambda>y. Inr (x + y)))
         else Inl NoReturnValue),
      op_plus = (\<lambda>a b. Inr (a + b)),
      acc_value = 1,
      op_backward = (\<lambda>oc grad inputs.
         bindE (load inputs 0) (\<lambda>a. bindE (load inputs 1) (\<lambda>b. Inr (a - b))))\<rparr>"

text \<open>
  The diamond: a placeholder \<open>x\<close>, two operations \<open>a = Sigmoid(x)\<close> and
  \<open>b = Sigmoid(x)\<close>, and the summing root \<open>s = Add(a, b)\<close>; built by the constructors,
  the four nodes get the pointers 0, 1, 2, 3.
\<close>

definition diamond :: "'t TensorOps \<Rightarrow> error + 't heap" where
  "diamond ops =
     (case new_Placeholder ops [] of (x, h1) \<Rightarrow>
        bindE (new_Operation ops Sigmoid [x] h1) (\<lambda>(a, h2).
        bindE (new_Operation ops Sigmoid [x] h2) (\<lambda>(b, h3).
        bindE (new_Operation ops Add [a, b] h3) (\<lambda>(s, h4).
        Inr h4))))"

text \<open>
  The sum of a placeholder and a variable: \<open>x = Placeholder\<close>, \<open>v = Variable\<close> with
  value \<open>val\<close>, \<open>s = Add(x, v)\<close>; the pointers are 0, 1, 2.
\<close>

definition add_graph :: "'t TensorOps \<Rightarrow> 't \<Rightarrow> error + 't heap" where
  "add_graph ops val =
     (case new_Placeholder ops [] of (x, h1) \<Rightarrow>
      case new_Variable ops val h1 of (v, h2) \<Rightarrow>
        bindE (new_Operation ops Add [x, v] h2) (\<lambda>(s, h3).
        Inr h3))"

text \<open>A single operation \<open>s = Sigmoid(x)\<close> on a placeholder \<open>x\<close>; the pointers are 0, 1.\<close>

definition sigmoid_graph :: "'t TensorOps \<Rightarrow> error + 't heap" where
  "sigmoid_graph ops =
     (case new_Placeholder ops [] of (x, h1) \<Rightarrow>
        bindE (new_Operation ops Sigmoid [x] h1) (\<lambda>(s, h2).
        Inr h2))"

text \<open>
  The heaps that the three constructions above return over \<open>int_ops\<close> (lemmas
  \<open>diamond_int\<close>, \<open>add_graph_int\<close> and \<open>sigmoid_graph_int\<close>), written out.
\<close>

definition diamond_heap :: "int heap" where
  "diamond_heap =
     [\<lparr>node_class = Placeholder, node_output = - 1, consumers = [1, 2], input_nodes = [],
       var_value = - 1\<rparr>,
      \<lparr>node_class = Operation Sigmoid, node_output = - 1, consumers = [3], input_nodes = [0],
       var_value = - 1\<rparr>,
      \<lparr>node_class = Operation Sigmoid, node_output = - 1, consumers = [3], input_nodes = [0],
       var_value = - 1\<rparr>,
      \<lparr>node_class = Operation Add, node_output = - 1, consumers = [], input_nodes = [1, 2],
       var_value = - 1\<rparr>]"

definition add_heap :: "int heap" where
  "add_heap =
     [\<lparr>node_class = Placeholder, node_output = - 1, consumers = [2], input_nodes = [],
       var_value = - 1\<rparr>,
      \<lparr>node_class = Variable, node_output = - 1, consumers = [2], input_nodes = [],
       var_value = 5\<rparr>,
      \<lparr>node_class = Operation Add, node_output = - 1, consumers = [], input_nodes = [0, 1],
       var_value = - 1\<rparr>]"

definition sigmoid_heap :: "int heap" where
  "sigmoid_heap =
     [\<lparr>node_class = Placeholder, node_output = - 1, consumers = [1], input_nodes = [],
       var_value = - 1\<rparr>,
      \<lparr>node_class = Operation Sigmoid, node_output = - 1, consumers = [], input_nodes = [0],
       var_value = - 1\<rparr>]"

section \<open>Vocabulary of the statements about the graph\<close>

text \<open>
  \<open>graph_app g ps vs os\<close> is \<open>g\<close> with three lists appended to its collections.
  \<open>ordered_ops h os\<close>: every entry of \<open>os\<close> comes after an occurrence of each of its
  input nodes that is an operation.  \<open>collected h R ps vs os\<close>: the three lists hold
  exactly the nodes of \<open>R\<close>, each in the list of its type, and \<open>os\<close> is ordered.
  \<open>inherits_backward node\<close>: the class of the node does not override \<open>backward\<close>.
\<close>

definition graph_app :: "Graph \<Rightarrow> nat list \<Rightarrow> nat list \<Rightarrow> nat list \<Rightarrow> Graph" where
  "graph_app g ps vs os =
     \<lparr>placeholders = placeholders g @ ps, variables = variables g @ vs,
      operations = operations g @ os\<rparr>"

definition ordered_ops :: "'t heap \<Rightarrow> nat list \<Rightarrow> bool" where
  "ordered_ops h os =
     (\<forall>i<length os. \<forall>inp\<in>set (input_nodes (h ! (os ! i))).
        getNodeType (h ! inp) = OPERATION \<longrightarrow> inp \<in> set (take i os))"

definition collected :: "'t heap \<Rightarrow> nat set \<Rightarrow> nat list \<Rightarrow> nat list \<Rightarrow> nat list \<Rightarrow> bool" where
  "collected h R ps vs os =
     (set ps = {n \<in> R. getNodeType (h ! n) = PLACEHOLDER}
      \<and> set vs = {n \<in> R. getNodeType (h ! n) = VARIABLE}
      \<and> set os = {n \<in> R. getNodeType (h ! n) = OPERATION}
      \<and> ordered_ops h os)"

definition inherits_backward :: "'t Node \<Rightarrow> bool" where
  "inherits_backward node =
     (case node_class node of
        Variable \<Rightarrow> False
      | Placeholder \<Rightarrow> True
      | Operation oc \<Rightarrow>
          oc \<noteq> Conv2D \<and> oc \<noteq> Conv3D \<and> oc \<noteq> ReLU \<and> oc \<noteq> LeakyReLU \<and> oc \<noteq> MSE
          \<and> oc \<noteq> CrossEntrpy)"

text \<open>
  The hypotheses of the statements about \<open>run\<close>.  \<open>pointers_ok h ps\<close>: the pointers of
  \<open>ps\<close> and the input pointers of their nodes point to nodes of \<open>h\<close>.
  \<open>computes_ok ops h ps\<close>: the \<open>compute\<close> of each operation of \<open>ps\<close> returns a tensor on
  every vector of as many inputs as the node has input nodes.  \<open>same_graph h h'\<close>: the
  heap \<open>h'\<close> has the nodes of \<open>h\<close>, with the same classes and input pointers (the outputs
  may differ).
\<close>

definition pointers_ok :: "'t heap \<Rightarrow> nat list \<Rightarrow> bool" where
  "pointers_ok h ps =
     list_all (\<lambda>p. p < length h \<and> list_all (\<lambda>i. i < length h) (input_nodes (h ! p))) ps"

definition computes_ok :: "'t TensorOps \<Rightarrow> 't heap \<Rightarrow> nat list \<Rightarrow> bool" where
  "computes_ok ops h ps =
     (\<forall>p\<in>set ps. \<forall>oc inputs.
        node_class (h ! p) = Operation oc \<longrightarrow> length inputs = length (input_nodes (h ! p))
          \<longrightarrow> (\<exists>t. op_compute ops oc inputs = Inr t))"

definition same_graph :: "'t heap \<Rightarrow> 't heap \<Rightarrow> bool" where
  "same_graph h h' =
     (length h' = length h
      \<and> (\<forall>p<length h. node_class (h' ! p) = node_class (h ! p)
                       \<and> input_nodes (h' ! p) = input_nodes (h ! p)))"


section \<open>Loops that store into a buffer\<close>

lemma foldE_append:
  "foldE f (xs @ ys) st = (case foldE f xs st of Inl e \<Rightarrow> Inl e | Inr st' \<Rightarrow> foldE f ys st')"
  by (induction xs arbitrary: st) (auto split: sum.splits)

lemma foldE_store:
  assumes "map (pos (shape t)) xs = [0..<length xs]"
    and "length xs \<le> length (data t)"
    and "\<And>x. x \<in> set xs \<Longrightarrow> func x = Inr (val x)"
  shows "foldE (\<lambda>x t'. case func x of Inl e \<Rightarrow> Inl e
            | Inr v \<Rightarrow> (case store (data t') (pos (shape t') x) v of
                          Inl e \<Rightarrow> Inl e
                        | Inr d \<Rightarrow> Inr (t'\<lparr>data := d\<rparr>))) xs t
         = Inr (t\<lparr>data := map val xs @ drop (length xs) (data t)\<rparr>)"
  using assms
proof (induction xs rule: rev_induct)
  case Nil
  then show ?case by simp
next
  case (snoc x xs)
  from snoc.prems(1) have p: "map (pos (shape t)) xs = [0..<length xs]" and px: "pos (shape t) x = length xs"
    by simp_all
  from snoc.prems(2) have len: "length xs < length (data t)" by simp
  have IH: "foldE (\<lambda>x t'. case func x of Inl e \<Rightarrow> Inl e
            | Inr v \<Rightarrow> (case store (data t') (pos (shape t') x) v of
                          Inl e \<Rightarrow> Inl e
                        | Inr d \<Rightarrow> Inr (t'\<lparr>data := d\<rparr>))) xs t
         = Inr (t\<lparr>data := map val xs @ drop (length xs) (data t)\<rparr>)"
    using snoc.IH[OF p] len snoc.prems(3) by simp
  have fx: "func x = Inr (val x)" using snoc.prems(3) by simp
  have upd: "(map val xs @ drop (length xs) (data t))[length xs := val x]
      = map val xs @ val x # drop (Suc (length xs)) (data t)"
  proof -
    have "drop (length xs) (data t) = data t ! length xs # drop (Suc (length xs)) (data t)"
      using len by (rule Cons_nth_drop_Suc[symmetric])
    then show ?thesis by (simp add: list_update_append)
  qed
  show ?case
    using len by (simp add: foldE_append IH fx px store_def upd)
qed

lemma foreach_elem_assign_Inr:
  assumes len: "length (data t) = tlength t"
    and f: "\<And>i. i < tlength t \<Longrightarrow> func i = Inr (val i)"
  shows "foreach_elem_assign func t = Inr (t\<lparr>data := map val [0..<tlength t]\<rparr>)"
proof -
  have "foldE (\<lambda>x t'. case func x of Inl e \<Rightarrow> Inl e
            | Inr v \<Rightarrow> (case store (data t') ((\<lambda>s i. i) (shape t') x) v of
                          Inl e \<Rightarrow> Inl e
                        | Inr d \<Rightarrow> Inr (t'\<lparr>data := d\<rparr>))) [0..<tlength t] t
         = Inr (t\<lparr>data := map val [0..<tlength t] @ drop (length [0..<tlength t]) (data t)\<rparr>)"
    by (rule foldE_store) (use len f in simp_all)
  then show ?thesis
    using len by (simp add: foreach_elem_assign_def)
qed

lemma allocate_simps [simp]:
  "shape (allocate s) = s" "length (data (allocate s)) = shape_size s"
  "tlength (allocate s) = shape_size s"
  by (simp_all add: allocate_def tlength_def)

lemma zeros_Inr: "zeros s = Inr (allocate s)"
proof -
  have "zeros s = Inr ((allocate s)\<lparr>data := map (\<lambda>i. 0) [0..<shape_size s]\<rparr>)"
    unfolding zeros_def
    using foreach_elem_assign_Inr[of "allocate s" "\<lambda>i. Inr 0" "\<lambda>i. 0"] by simp
  also have "map (\<lambda>i. 0) [0..<shape_size s] = replicate (shape_size s) 0"
    by (simp add: map_replicate_const)
  finally show ?thesis by (simp add: allocate_def)
qed

lemma priv_foreach_elem_assign_Inr:
  assumes "length (data t) = shape_size (shape t)"
  shows "priv_foreach_elem_assign func t = Inr \<lparr>shape = shape t, data = map func (data t)\<rparr>"
proof -
  have "priv_foreach_elem_assign func t
      = Inr ((allocate (shape t))\<lparr>data := map (\<lambda>i. func (data t ! i)) [0..<shape_size (shape t)]\<rparr>)"
    unfolding priv_foreach_elem_assign_def
    using foreach_elem_assign_Inr[of "allocate (shape t)"
        "\<lambda>i. case load (data t) i of Inl e \<Rightarrow> Inl e | Inr x \<Rightarrow> Inr (func x)"
        "\<lambda>i. func (data t ! i)"] assms
    by (simp add: load_def)
  also have "map (\<lambda>i. func (data t ! i)) [0..<shape_size (shape t)] = map func (data t)"
  proof -
    have "map (\<lambda>i. func (data t ! i)) [0..<length (data t)]
        = map func (map ((!) (data t)) [0..<length (data t)])"
      by (simp only: map_map comp_def)
    also have "\<dots> = map func (data t)" by (simp only: map_nth)
    finally show ?thesis using assms by simp
  qed
  finally show ?thesis by (simp add: allocate_def)
qed

section \<open>The five nested loops enumerate the buffer in order\<close>

lemma concat_upt:
  "concat (map (\<lambda>i. map (\<lambda>j. g (i * n + j)) [0..<n]) [0..<m]) = map g [0..<m * n]"
proof (induction m)
  case 0
  then show ?case by simp
next
  case (Suc m)
  have "[0..<m * n + n] = [0..<m * n] @ [m * n..<m * n + n]"
    by (rule upt_add_eq_append) simp
  then have a: "[0..<Suc m * n] = [0..<m * n] @ [m * n..<m * n + n]"
    by (simp only: mult_Suc add.commute)
  have "map (\<lambda>j. g (m * n + j)) [0..<n] = map g (map (\<lambda>j. j + m * n) [0..<n])"
    by (simp only: map_map comp_def add.commute)
  also have "\<dots> = map g [m * n..<m * n + n]"
    by (simp only: map_add_upt add.commute)
  finally have b: "map (\<lambda>j. g (m * n + j)) [0..<n] = map g [m * n..<m * n + n]" .
  show ?case unfolding a using Suc b by simp
qed

lemma concat_upt_nested:
  "concat (map (\<lambda>i. map (\<lambda>j. (x * m + i) * n + j) [0..<n]) [0..<m])
     = map (\<lambda>p. x * (m * n) + p) [0..<m * n]"
proof -
  have "(\<lambda>i. map (\<lambda>j. (x * m + i) * n + j) [0..<n])
      = (\<lambda>i. map (\<lambda>j. (\<lambda>p. x * (m * n) + p) (i * n + j)) [0..<n])"
    by (simp add: algebra_simps)
  then show ?thesis
    using concat_upt[of "\<lambda>p. x * (m * n) + p" n m] by simp
qed

lemma sub2ind_horner:
  "sub2ind s i j k l m = (((i * s ! 1 + j) * s ! 2 + k) * s ! 3 + l) * s ! 4 + m"
  by (simp add: sub2ind_def algebra_simps)

lemma foreach_idx_sub2ind:
  "map (\<lambda>(i, j, k, l, m). sub2ind s i j k l m) (foreach_idx s) = [0..<shape_size s]"
proof -
  have L1: "\<And>n f w. concat (map (\<lambda>h. map (\<lambda>c. sub2ind s n f w h c) [0..<s ! 4]) [0..<s ! 3])
      = map (\<lambda>p. ((n * s ! 1 + f) * s ! 2 + w) * (s ! 3 * s ! 4) + p) [0..<s ! 3 * s ! 4]"
    unfolding sub2ind_horner by (rule concat_upt_nested)
  have L2: "\<And>n f. concat (map (\<lambda>w. map (\<lambda>p. ((n * s ! 1 + f) * s ! 2 + w) * (s ! 3 * s ! 4) + p)
        [0..<s ! 3 * s ! 4]) [0..<s ! 2])
      = map (\<lambda>p. (n * s ! 1 + f) * (s ! 2 * (s ! 3 * s ! 4)) + p) [0..<s ! 2 * (s ! 3 * s ! 4)]"
    by (rule concat_upt_nested)
  have L3: "\<And>n. concat (map (\<lambda>f. map (\<lambda>p. (n * s ! 1 + f) * (s ! 2 * (s ! 3 * s ! 4)) + p)
        [0..<s ! 2 * (s ! 3 * s ! 4)]) [0..<s ! 1])
      = map (\<lambda>p. n * (s ! 1 * (s ! 2 * (s ! 3 * s ! 4))) + p) [0..<s ! 1 * (s ! 2 * (s ! 3 * s ! 4))]"
    by (rule concat_upt_nested)
  have L4: "concat (map (\<lambda>n. map (\<lambda>p. n * (s ! 1 * (s ! 2 * (s ! 3 * s ! 4))) + p)
        [0..<s ! 1 * (s ! 2 * (s ! 3 * s ! 4))]) [0..<s ! 0])
      = map (\<lambda>p. p) [0..<s ! 0 * (s ! 1 * (s ! 2 * (s ! 3 * s ! 4)))]"
    by (rule concat_upt)
  have "map (\<lambda>(i, j, k, l, m). sub2ind s i j k l m) (foreach_idx s)
      = concat (map (\<lambda>n. concat (map (\<lambda>f. concat (map (\<lambda>w. concat (map (\<lambda>h.
          map (\<lambda>c. sub2ind s n f w h c) [0..<s ! 4])
            [0..<s ! 3])) [0..<s ! 2])) [0..<s ! 1])) [0..<s ! 0])"
    by (simp add: foreach_idx_def map_concat comp_def)
  also have "\<dots> = map (\<lambda>p. p) [0..<s ! 0 * (s ! 1 * (s ! 2 * (s ! 3 * s ! 4)))]"
    by (simp only: L1 L2 L3 L4)
  also have "\<dots> = [0..<shape_size s]"
    by (simp add: shape_size_def mult.assoc)
  finally show ?thesis .
qed

lemma set_foreach_idx:
  "(i, j, k, l, m) \<in> set (foreach_idx s)
     \<longleftrightarrow> i < s ! 0 \<and> j < s ! 1 \<and> k < s ! 2 \<and> l < s ! 3 \<and> m < s ! 4"
  by (auto simp: foreach_idx_def image_iff)

lemma length_foreach_idx: "length (foreach_idx s) = shape_size s"
proof -
  have "length (map (\<lambda>(i, j, k, l, m). sub2ind s i j k l m) (foreach_idx s)) = length [0..<shape_size s]"
    by (simp only: foreach_idx_sub2ind)
  then show ?thesis by simp
qed

lemma foreach_idx_nth:
  assumes "(i, j, k, l, m) \<in> set (foreach_idx s)"
  shows "sub2ind s i j k l m < shape_size s"
    and "foreach_idx s ! sub2ind s i j k l m = (i, j, k, l, m)"
proof -
  from assms obtain q where q: "q < length (foreach_idx s)" "foreach_idx s ! q = (i, j, k, l, m)"
    by (auto simp: in_set_conv_nth)
  have "map (\<lambda>(i, j, k, l, m). sub2ind s i j k l m) (foreach_idx s) ! q = [0..<shape_size s] ! q"
    by (simp only: foreach_idx_sub2ind)
  with q have "sub2ind s i j k l m = q"
    by (simp add: length_foreach_idx)
  with q show "sub2ind s i j k l m < shape_size s"
    and "foreach_idx s ! sub2ind s i j k l m = (i, j, k, l, m)"
    by (simp_all add: length_foreach_idx)
qed


lemma foreach_assign_Inr:
  assumes len: "length (data t) = shape_size (shape t)"
    and f: "\<And>i j k l m. (i, j, k, l, m) \<in> set (foreach_idx (shape t))
              \<Longrightarrow> func i j k l m = Inr (val i j k l m)"
  shows "foreach_assign func t
     = Inr (t\<lparr>data := map (\<lambda>(i, j, k, l, m). val i j k l m) (foreach_idx (shape t))\<rparr>)"
proof -
  have step: "(\<lambda>(n, f, w, h, c). (\<lambda>i j k l m t'. case func i j k l m of
                Inl e \<Rightarrow> Inl e
              | Inr v \<Rightarrow> tensor_set v i j k l m t') n f w h c)
      = (\<lambda>x t'. case (\<lambda>(i, j, k, l, m). func i j k l m) x of Inl e \<Rightarrow> Inl e
            | Inr v \<Rightarrow> (case store (data t') ((\<lambda>s (i, j, k, l, m). sub2ind s i j k l m) (shape t') x) v of
                          Inl e \<Rightarrow> Inl e
                        | Inr d \<Rightarrow> Inr (t'\<lparr>data := d\<rparr>)))"
    by (auto simp: fun_eq_iff tensor_set_def split: sum.splits)
  have "foldE (\<lambda>x t'. case (\<lambda>(i, j, k, l, m). func i j k l m) x of Inl e \<Rightarrow> Inl e
            | Inr v \<Rightarrow> (case store (data t') ((\<lambda>s (i, j, k, l, m). sub2ind s i j k l m) (shape t') x) v of
                          Inl e \<Rightarrow> Inl e
                        | Inr d \<Rightarrow> Inr (t'\<lparr>data := d\<rparr>))) (foreach_idx (shape t)) t
      = Inr (t\<lparr>data := map (\<lambda>(i, j, k, l, m). val i j k l m) (foreach_idx (shape t))
               @ drop (length (foreach_idx (shape t))) (data t)\<rparr>)"
  proof (rule foldE_store)
    show "map ((\<lambda>s (i, j, k, l, m). sub2ind s i j k l m) (shape t)) (foreach_idx (shape t))
        = [0..<length (foreach_idx (shape t))]"
      by (simp only: foreach_idx_sub2ind length_foreach_idx)
    show "length (foreach_idx (shape t)) \<le> length (data t)"
      by (simp add: length_foreach_idx len)
    show "\<And>x. x \<in> set (foreach_idx (shape t)) \<Longrightarrow>
        (\<lambda>(i, j, k, l, m). func i j k l m) x = Inr ((\<lambda>(i, j, k, l, m). val i j k l m) x)"
      using f by auto
  qed
  then show ?thesis
    unfolding foreach_assign_def foreach_def step
    by (simp add: length_foreach_idx len)
qed

lemma foreach_assign_at:
  assumes "length (data t) = shape_size (shape t)"
    and "i < shape t ! 0" "j < shape t ! 1" "k < shape t ! 2" "l < shape t ! 3" "m < shape t ! 4"
  shows "tensor_at (t\<lparr>data := map (\<lambda>(i, j, k, l, m). val i j k l m) (foreach_idx (shape t))\<rparr>)
            i j k l m = Inr (val i j k l m)"
proof -
  have mem: "(i, j, k, l, m) \<in> set (foreach_idx (shape t))"
    using assms by (simp add: set_foreach_idx)
  show ?thesis
    using foreach_idx_nth[OF mem]
    by (simp add: tensor_at_def load_def length_foreach_idx)
qed

section \<open>Elementwise functions and equality\<close>

lemma priv_sigmoid_antimono: "x < y \<Longrightarrow> priv_sigmoid y < priv_sigmoid x"
  unfolding priv_sigmoid_def
  by (intro divide_strict_left_mono) (simp_all add: add_pos_pos)

text \<open>
  Claim C10.  \<open>Tensor::sigmoid\<close> returns a tensor of the same shape whose every element
  is \<open>1 / (1 + exp x)\<close> for the input element \<open>x\<close>: the logistic function at the
  negated argument.  Its value at 0 is one half, and it is strictly decreasing.
\<close>

theorem sigmoid_negated_logistic:
  "Tensor_ok t \<Longrightarrow>
     sigmoid t = Inr \<lparr>shape = shape t, data = map (\<lambda>x. 1 / (1 + exp x)) (data t)\<rparr>
     \<and> priv_sigmoid 0 = 1 / 2
     \<and> (\<forall>x. priv_sigmoid (- x) = 1 / (1 + exp (- x)))
     \<and> (\<forall>x y. x < y \<longrightarrow> priv_sigmoid y < priv_sigmoid x)"
proof (intro conjI allI impI)
  assume "Tensor_ok t"
  then have "length (data t) = shape_size (shape t)" by (simp add: Tensor_ok_def)
  then have "sigmoid t = Inr \<lparr>shape = shape t, data = map priv_sigmoid (data t)\<rparr>"
    unfolding sigmoid_def by (rule priv_foreach_elem_assign_Inr)
  moreover have "priv_sigmoid = (\<lambda>x. 1 / (1 + exp x))"
    by (rule ext) (simp add: priv_sigmoid_def)
  ultimately show "sigmoid t = Inr \<lparr>shape = shape t, data = map (\<lambda>x. 1 / (1 + exp x)) (data t)\<rparr>"
    by simp
next
  show "priv_sigmoid 0 = 1 / 2" by (simp add: priv_sigmoid_def)
next
  fix x show "priv_sigmoid (- x) = 1 / (1 + exp (- x))" by (simp add: priv_sigmoid_def)
next
  fix x y :: real assume "x < y"
  then show "priv_sigmoid y < priv_sigmoid x" by (rule priv_sigmoid_antimono)
qed

theorem sigmoid_negated_logistic_witness:
  "Tensor_ok \<lparr>shape = [1, 1, 1, 1, 2], data = [0, 0 :: real]\<rparr>
   \<and> sigmoid \<lparr>shape = [1, 1, 1, 1, 2], data = [0, 0]\<rparr>
       = Inr \<lparr>shape = [1, 1, 1, 1, 2], data = [1 / 2, 1 / 2]\<rparr>
   \<and> (0 :: real) < 1 \<and> priv_sigmoid 1 < priv_sigmoid 0"
proof -
  have ok: "Tensor_ok \<lparr>shape = [1, 1, 1, 1, 2], data = [0, 0 :: real]\<rparr>"
    by (simp add: Tensor_ok_def Shape_ok_def shape_size_def)
  show ?thesis
    using ok sigmoid_negated_logistic[OF ok] by simp
qed

lemma tensor_eq_fold:
  assumes "n \<le> length da" "n \<le> length db"
  shows "foldE (\<lambda>i result. case load da i of
            Inl e \<Rightarrow> Inl e
          | Inr x \<Rightarrow> (case load db i of
                        Inl e \<Rightarrow> Inl e
                      | Inr y \<Rightarrow> Inr (if \<bar>x - y\<bar> > (c::real) then False else result)))
       [0..<n] True = Inr (\<forall>i<n. \<bar>da ! i - db ! i\<bar> \<le> c)"
  using assms
proof (induction n)
  case 0
  then show ?case by simp
next
  case (Suc n)
  then show ?case
    by (auto simp: foldE_append load_def less_Suc_eq not_less)
qed

text \<open>
  Claim C8, as the source has it.  For two well-formed tensors of the same shape,
  \<open>operator ==\<close> returns true exactly when at every position the absolute difference
  of the two elements is at most \<open>10e-6\<close>, that is \<open>1 / 100000\<close>: the tolerance of the
  source is ten times the \<open>1e-6\<close> of the claim.
\<close>

theorem tensor_eq_tolerance:
  assumes "Tensor_ok a" "Tensor_ok b" "shape a = shape b"
  shows "tensor_eq a b = Inr (\<forall>i<length (data a). \<bar>data a ! i - data b ! i\<bar> \<le> 1 / 100000)"
proof -
  have la: "tlength a = length (data a)" and lb: "tlength a = length (data b)"
    using assms by (simp_all add: Tensor_ok_def tlength_def)
  have "tensor_eq a b = Inr (\<forall>i<tlength a. \<bar>data a ! i - data b ! i\<bar> \<le> 10 / 10 ^ 6)"
    unfolding tensor_eq_def foreach_elem_def tensor_get_def
    by (rule tensor_eq_fold) (simp_all add: la[symmetric] lb[symmetric])
  then show ?thesis by (simp add: la)
qed

theorem tensor_eq_tolerance_witness:
  "Tensor_ok \<lparr>shape = [1, 1, 1, 1, 2], data = [0, 1 :: real]\<rparr>
   \<and> Tensor_ok \<lparr>shape = [1, 1, 1, 1, 2], data = [5 / 1000000, 1 :: real]\<rparr>
   \<and> tensor_eq \<lparr>shape = [1, 1, 1, 1, 2], data = [0, 1]\<rparr>
        \<lparr>shape = [1, 1, 1, 1, 2], data = [5 / 1000000, 1]\<rparr> = Inr True"
proof -
  have oka: "Tensor_ok \<lparr>shape = [1, 1, 1, 1, 2], data = [0, 1 :: real]\<rparr>"
    by (simp add: Tensor_ok_def Shape_ok_def shape_size_def)
  have okb: "Tensor_ok \<lparr>shape = [1, 1, 1, 1, 2], data = [5 / 1000000, 1 :: real]\<rparr>"
    by (simp add: Tensor_ok_def Shape_ok_def shape_size_def)
  show ?thesis
    using oka okb tensor_eq_tolerance[OF oka okb] by (simp add: less_Suc_eq nth_Cons')
qed

text \<open>
  Claim C8 as stated fails: the one-element tensors \<open>[0]\<close> and \<open>[0.000005]\<close> differ
  by more than \<open>1e-6\<close>, and \<open>operator ==\<close> returns true.
\<close>

theorem tensor_eq_counterexample:
  "tensor_eq \<lparr>shape = [1, 1, 1, 1, 1], data = [0]\<rparr>
             \<lparr>shape = [1, 1, 1, 1, 1], data = [5 / 1000000]\<rparr> = Inr True
   \<and> \<not> \<bar>(0 :: real) - 5 / 1000000\<bar> \<le> 1 / 1000000"
  by (simp add: tensor_eq_def foreach_elem_def tlength_def shape_size_def tensor_get_def load_def)

section \<open>The binary operators\<close>







lemma bindE_Inl:
  "bindE x f = Inl e \<Longrightarrow> x = Inl e \<or> (\<exists>v. x = Inr v \<and> f v = Inl e)"
  by (cases x) (simp_all add: bindE_def)







text \<open>The definitions that evaluate a tensor operation on concrete tensors.\<close>

lemmas tensor_eval =
  priv_foreach_assign_def foreach_assign_def foreach_def foreach_idx_def
  first_diff_axis_def allocate_def shape_size_def sub2ind_def tensor_at_def tensor_set_def
  load_def store_def bindE_def Let_def


text \<open>
  With one differing axis the output takes the shape of the right operand, also when
  the left operand is the larger one; with the larger operand on the right, the left
  operand is read outside its buffer.
\<close>

lemma binary_op_broadcast_shape_example:
  "tensor_plus \<lparr>shape = [2, 1, 1, 1, 1], data = [1, 2]\<rparr>
         \<lparr>shape = [1, 1, 1, 1, 1], data = [10]\<rparr>
       = Inr \<lparr>shape = [1, 1, 1, 1, 1], data = [11]\<rparr>
   \<and> tensor_plus \<lparr>shape = [1, 1, 1, 1, 1], data = [10]\<rparr>
         \<lparr>shape = [2, 1, 1, 1, 1], data = [1, 2]\<rparr>
       = Inl OutOfBounds"
  by (simp add: tensor_plus_def tensor_eval upt_rec)

section \<open>Reduction and pooling on concrete tensors\<close>

lemma replicate_2: "replicate 2 x = [x, x]"
  by (simp add: numeral_2_eq_2)

lemma scalar_eval:
  "length d = shape_size s \<Longrightarrow>
     scalar_divide \<lparr>shape = s, data = d\<rparr> b = Inr \<lparr>shape = s, data = map (\<lambda>x. x / b) d\<rparr>"
  "length d = shape_size s \<Longrightarrow>
     scalar_times \<lparr>shape = s, data = d\<rparr> b = Inr \<lparr>shape = s, data = map (\<lambda>x. x * b) d\<rparr>"
  by (simp_all add: scalar_divide_def scalar_times_def priv_foreach_elem_assign_Inr)

text \<open>
  Claim C6 fails on axis 0.  Case 0 of the switch in \<open>reduce_sum\<close> has no \<open>break\<close>, so
  the loop of case 1 runs after it on the same output.  For the tensor of shape
  \<open>(1, 2, 1, 1, 1)\<close> with elements \<open>1, 2\<close>, the sum along axis 0 (of size 1) is the
  tensor itself; the source returns the elements \<open>4, 2\<close>, and so does \<open>reduce_mean\<close>.
\<close>

theorem reduce_sum_axis0_falls_through:
  "reduce_sum 0 \<lparr>shape = [1, 2, 1, 1, 1], data = [1, 2]\<rparr>
     = Inr \<lparr>shape = [1, 2, 1, 1, 1], data = [4, 2]\<rparr>
   \<and> reduce_mean 0 \<lparr>shape = [1, 2, 1, 1, 1], data = [1, 2]\<rparr>
     = Inr \<lparr>shape = [1, 2, 1, 1, 1], data = [4, 2]\<rparr>"
proof -
  have rs: "reduce_sum 0 \<lparr>shape = [1, 2, 1, 1, 1], data = [1, 2]\<rparr>
     = Inr \<lparr>shape = [1, 2, 1, 1, 1], data = [4, 2]\<rparr>"
    by (simp add: reduce_sum_def shape_set_def zeros_Inr reduce_step_def tensor_eval upt_rec
        numeral_2_eq_2[symmetric] replicate_2)
  have "reduce_mean 0 \<lparr>shape = [1, 2, 1, 1, 1], data = [1, 2]\<rparr>
     = Inr \<lparr>shape = [1, 2, 1, 1, 1], data = [4, 2]\<rparr>"
    unfolding reduce_mean_def rs
    by (simp add: bindE_def load_def scalar_eval shape_size_def)
  with rs show ?thesis by simp
qed

text \<open>Along axis 1, whose case ends with \<open>break\<close>, the same tensor sums to 3.\<close>

lemma reduce_sum_axis1_example:
  "reduce_sum 1 \<lparr>shape = [1, 2, 1, 1, 1], data = [1, 2]\<rparr>
     = Inr \<lparr>shape = [1, 1, 1, 1, 1], data = [3]\<rparr>"
  by (simp add: reduce_sum_def shape_set_def zeros_Inr reduce_step_def tensor_eval upt_rec)

text \<open>
  Claim C7 fails for \<open>avg_pooling\<close>.  \<open>__pooling_\<close> starts \<open>value\<close> with the first
  element of the window and then folds every element of the window into it, the first
  one again: right for a maximum, one element too many for a sum.  For the 2 x 2 tensor
  \<open>1, 2, 3, 4\<close> and width 2, the maximum is 4, but the average times \<open>2 * 2\<close> is 11 and
  the sum of the window is 10.
\<close>

theorem avg_pooling_counts_first_twice:
  "max_pooling 2 \<lparr>shape = [1, 1, 2, 2, 1], data = [1, 2, 3, 4]\<rparr>
     = Inr \<lparr>shape = [1, 1, 1, 1, 1], data = [4]\<rparr>
   \<and> avg_pooling 2 \<lparr>shape = [1, 1, 2, 2, 1], data = [1, 2, 3, 4]\<rparr>
     = Inr \<lparr>shape = [1, 1, 1, 1, 1], data = [11 / 4]\<rparr>
   \<and> bindE (avg_pooling 2 \<lparr>shape = [1, 1, 2, 2, 1], data = [1, 2, 3, 4]\<rparr>)
        (\<lambda>p. bindE (scalar_times p 2) (\<lambda>q. scalar_times q 2))
     = Inr \<lparr>shape = [1, 1, 1, 1, 1], data = [11]\<rparr>"
proof -
  have mx: "max_pooling 2 \<lparr>shape = [1, 1, 2, 2, 1], data = [1, 2, 3, 4]\<rparr>
     = Inr \<lparr>shape = [1, 1, 1, 1, 1], data = [4]\<rparr>"
    by (simp add: max_pooling_def priv_pooling_def mkShape_def window_idx_def zeros_Inr
        tensor_eval upt_rec)
  have sm: "priv_pooling 2 (\<lambda>a b. a + b) \<lparr>shape = [1, 1, 2, 2, 1], data = [1, 2, 3, 4]\<rparr>
     = Inr \<lparr>shape = [1, 1, 1, 1, 1], data = [11]\<rparr>"
    by (simp add: priv_pooling_def mkShape_def window_idx_def zeros_Inr
        tensor_eval upt_rec)
  have av: "avg_pooling 2 \<lparr>shape = [1, 1, 2, 2, 1], data = [1, 2, 3, 4]\<rparr>
     = Inr \<lparr>shape = [1, 1, 1, 1, 1], data = [11 / 4]\<rparr>"
    unfolding avg_pooling_def sm
    by (simp add: bindE_def scalar_eval shape_size_def)
  have "bindE (avg_pooling 2 \<lparr>shape = [1, 1, 2, 2, 1], data = [1, 2, 3, 4]\<rparr>)
        (\<lambda>p. bindE (scalar_times p 2) (\<lambda>q. scalar_times q 2))
     = Inr \<lparr>shape = [1, 1, 1, 1, 1], data = [11]\<rparr>"
    unfolding av
    by (simp add: bindE_def scalar_eval shape_size_def)
  with mx av show ?thesis by simp
qed

section \<open>Permuting the axes\<close>

lemma bindE_simps:
  "bindE (Inr v) f = f v" "bindE (Inl e) f = Inl e"
  by (simp_all add: bindE_def)

lemma mapE_Inr:
  "(\<And>x. x \<in> set xs \<Longrightarrow> f x = Inr (g x)) \<Longrightarrow> mapE f xs = Inr (map g xs)"
  by (induction xs) simp_all

lemma upt_5: "[0..<5] = [0, 1, 2, 3, 4]"
  by (simp add: upt_rec)

lemma length_5_conv:
  "length xs = 5 \<longleftrightarrow> (\<exists>a0 a1 a2 a3 a4. xs = [a0, a1, a2, a3, a4])"
  by (auto simp: length_Suc_conv eval_nat_numeral)

lemma less_5_cases: "q < (5::nat) \<longleftrightarrow> q = 0 \<or> q = 1 \<or> q = 2 \<or> q = 3 \<or> q = 4"
  by auto

text \<open>A bijection on 0..4 and its inverse, as lists of five entries.\<close>

lemma perm5_distinct:
  fixes order :: "nat list"
  assumes "length order = 5" "set order = {0..<5}"
  shows "distinct order"
proof -
  have "card (set order) = length order" using assms by simp
  then show ?thesis by (rule card_distinct)
qed

lemma perm5_inverse:
  fixes order :: "nat list"
  assumes "length order = 5" "set order = {0..<5}"
    and "length iord = 5" "\<forall>p<5. iord ! (order ! p) = p"
  shows "set iord = {0..<5}" and "\<forall>q<5. order ! (iord ! q) = q"
proof -
  have surj: "\<And>q. q < 5 \<Longrightarrow> \<exists>p<5. order ! p = q"
  proof -
    fix q :: nat assume "q < 5"
    then have "q \<in> set order" using assms(2) by simp
    then show "\<exists>p<5. order ! p = q" using assms(1) by (auto simp: in_set_conv_nth)
  qed
  have rng: "\<And>p. p < 5 \<Longrightarrow> order ! p < 5"
  proof -
    fix p :: nat assume "p < 5"
    then have "order ! p \<in> set order" using assms(1) by simp
    then show "order ! p < 5" using assms(2) by simp
  qed
  show inv2: "\<forall>q<5. order ! (iord ! q) = q"
  proof (intro allI impI)
    fix q :: nat assume "q < 5"
    then obtain p where "p < 5" "order ! p = q" using surj by blast
    then show "order ! (iord ! q) = q" using assms(4) by auto
  qed
  show "set iord = {0..<5}"
  proof (intro equalityI subsetI)
    fix x assume "x \<in> set iord"
    then obtain q where "q < 5" "iord ! q = x" using assms(3) by (auto simp: in_set_conv_nth)
    moreover from \<open>q < 5\<close> obtain p where "p < 5" "order ! p = q" using surj by blast
    ultimately show "x \<in> {0..<5}" using assms(4) by auto
  next
    fix x :: nat assume "x \<in> {0..<5}"
    then have x: "x < 5" by simp
    then have "iord ! (order ! x) = x" using assms(4) by simp
    moreover have "order ! x < length iord" using rng[OF x] assms(3) by simp
    ultimately show "x \<in> set iord" by (metis nth_mem)
  qed
qed

lemma permute_subs_closed:
  fixes order :: "nat list"
  assumes "length order = 5" "set order = {0..<5}"
    and "length iord = 5" "\<forall>p<5. iord ! (order ! p) = p"
  shows "permute_subs order i j k l m = Inr (map (\<lambda>q. [i, j, k, l, m] ! (iord ! q)) [0..<5])"
proof -
  from assms(1) obtain a0 a1 a2 a3 a4 where o: "order = [a0, a1, a2, a3, a4]"
    by (auto simp: length_5_conv)
  have d: "distinct [a0, a1, a2, a3, a4]"
    using perm5_distinct[OF assms(1,2)] o by simp
  have b: "a0 < 5" "a1 < 5" "a2 < 5" "a3 < 5" "a4 < 5"
    using assms(2) o by auto
  have iv: "iord ! a0 = 0" "iord ! a1 = 1" "iord ! a2 = 2" "iord ! a3 = 3" "iord ! a4 = 4"
    using assms(4) o by (auto simp: less_5_cases)
  define z :: "nat list" where "z = [0, 0, 0, 0, 0]"
  have lz: "length z = 5" by (simp add: z_def)
  have ev: "permute_subs order i j k l m
      = Inr (z[a0 := i, a1 := j, a2 := k, a3 := l, a4 := m])"
    unfolding permute_subs_def z_def[symmetric]
    using b lz by (simp add: o bindE_def load_def store_def)
  have "z[a0 := i, a1 := j, a2 := k, a3 := l, a4 := m]
      = map (\<lambda>q. [i, j, k, l, m] ! (iord ! q)) [0..<5]"
  proof (rule nth_equalityI)
    show "length (z[a0 := i, a1 := j, a2 := k, a3 := l, a4 := m])
        = length (map (\<lambda>q. [i, j, k, l, m] ! (iord ! q)) [0..<5])"
      using lz by simp
  next
    fix q assume "q < length (z[a0 := i, a1 := j, a2 := k, a3 := l, a4 := m])"
    then have q: "q < 5" using lz by simp
    then have "q \<in> set order" using assms(2) by simp
    then consider "q = a0" | "q = a1" | "q = a2" | "q = a3" | "q = a4"
      using o by auto
    then have "z[a0 := i, a1 := j, a2 := k, a3 := l, a4 := m] ! q
        = [i, j, k, l, m] ! (iord ! q)"
    proof cases
      case 1 then show ?thesis using d b lz by (auto simp: iv nth_list_update)
    next
      case 2 then show ?thesis using d b lz by (auto simp: iv nth_list_update)
    next
      case 3 then show ?thesis using d b lz by (auto simp: iv nth_list_update)
    next
      case 4 then show ?thesis using d b lz by (auto simp: iv nth_list_update)
    next
      case 5 then show ?thesis using d b lz by (auto simp: iv nth_list_update)
    qed
    then show "z[a0 := i, a1 := j, a2 := k, a3 := l, a4 := m] ! q
        = map (\<lambda>q. [i, j, k, l, m] ! (iord ! q)) [0..<5] ! q"
      using q by simp
  qed
  with ev show ?thesis by simp
qed


lemma perm5_range:
  fixes order :: "nat list"
  assumes "length order = 5" "set order = {0..<5}" "p < 5"
  shows "order ! p < 5"
proof -
  have "order ! p \<in> set order" using assms(1,3) by simp
  then show ?thesis using assms(2) by simp
qed

lemma Shape_ok_nth: "Shape_ok s \<Longrightarrow> q < 5 \<Longrightarrow> 1 \<le> s ! q"
  by (simp add: Shape_ok_def list_all_length)

lemma permute_Inr:
  fixes order iord :: "nat list"
  assumes ok: "Tensor_ok t"
    and o1: "length order = 5" and o2: "set order = {0..<5}"
    and b1: "length iord = 5" and b2: "\<forall>p<5. iord ! (order ! p) = p"
  shows "permute order t
     = Inr \<lparr>shape = map (\<lambda>q. shape t ! (order ! q)) [0..<5],
            data = map (\<lambda>(i, j, k, l, m). data t ! sub2ind (shape t)
                          ([i, j, k, l, m] ! (iord ! 0)) ([i, j, k, l, m] ! (iord ! 1))
                          ([i, j, k, l, m] ! (iord ! 2)) ([i, j, k, l, m] ! (iord ! 3))
                          ([i, j, k, l, m] ! (iord ! 4)))
                     (foreach_idx (map (\<lambda>q. shape t ! (order ! q)) [0..<5]))\<rparr>"
proof -
  define sz where "sz = map (\<lambda>q. shape t ! (order ! q)) [0..<5]"
  define val where "val = (\<lambda>i j k l m. data t ! sub2ind (shape t)
                          ([i, j, k, l, m] ! (iord ! 0)) ([i, j, k, l, m] ! (iord ! 1))
                          ([i, j, k, l, m] ! (iord ! 2)) ([i, j, k, l, m] ! (iord ! 3))
                          ([i, j, k, l, m] ! (iord ! 4)))"
  have sok: "Shape_ok (shape t)" and len: "length (data t) = shape_size (shape t)"
    using ok by (simp_all add: Tensor_ok_def)
  have ls: "length (shape t) = 5" using sok by (simp add: Shape_ok_def)
  note rng = perm5_range[OF o1 o2]
  note inv = perm5_inverse[OF o1 o2 b1 b2]
  note brng = perm5_range[OF b1 inv(1)]
  have szq: "\<And>q. q < 5 \<Longrightarrow> sz ! q = shape t ! (order ! q)"
    by (simp add: sz_def)
  have a: "mapE (\<lambda>i. bindE (load order i) (\<lambda>a. load (shape t) a)) [0..<5] = Inr sz"
    unfolding sz_def
    by (rule mapE_Inr) (use o1 ls rng in \<open>simp add: bindE_def load_def\<close>)
  have b: "mkShape sz = Inr sz"
  proof -
    have "length sz = 5" by (simp add: sz_def)
    moreover have "list_all (\<lambda>d. 1 \<le> d) sz"
      unfolding list_all_length
    proof (intro allI impI)
      fix q assume "q < length sz"
      then have q: "q < 5" by (simp add: sz_def)
      then show "1 \<le> sz ! q"
        using Shape_ok_nth[OF sok rng[OF q]] by (simp add: szq)
    qed
    ultimately show ?thesis by (simp add: mkShape_def)
  qed
  have d: "foreach_assign
       (\<lambda>i j k l m.
          bindE (permute_subs order i j k l m) (\<lambda>subs.
          tensor_at t (subs ! 0) (subs ! 1) (subs ! 2) (subs ! 3) (subs ! 4)))
       (allocate sz)
      = Inr ((allocate sz)\<lparr>data := map (\<lambda>(i, j, k, l, m). val i j k l m) (foreach_idx sz)\<rparr>)"
  proof -
    have "\<And>i j k l m. (i, j, k, l, m) \<in> set (foreach_idx sz) \<Longrightarrow>
          bindE (permute_subs order i j k l m) (\<lambda>subs.
          tensor_at t (subs ! 0) (subs ! 1) (subs ! 2) (subs ! 3) (subs ! 4))
          = Inr (val i j k l m)"
    proof -
      fix i j k l m
      assume "(i, j, k, l, m) \<in> set (foreach_idx sz)"
      then have "i < sz ! 0" "j < sz ! 1" "k < sz ! 2" "l < sz ! 3" "m < sz ! 4"
        by (simp_all add: set_foreach_idx)
      then have vp: "\<And>p. p < 5 \<Longrightarrow> [i, j, k, l, m] ! p < shape t ! (order ! p)"
        by (auto simp: less_5_cases szq)
      have vq: "\<And>q. q < 5 \<Longrightarrow> [i, j, k, l, m] ! (iord ! q) < shape t ! q"
      proof -
        fix q :: nat assume q: "q < 5"
        have "[i, j, k, l, m] ! (iord ! q) < shape t ! (order ! (iord ! q))"
          by (rule vp) (rule brng[OF q])
        then show "[i, j, k, l, m] ! (iord ! q) < shape t ! q"
          using inv(2) q by simp
      qed
      have "(([i, j, k, l, m] ! (iord ! 0)), ([i, j, k, l, m] ! (iord ! 1)),
             ([i, j, k, l, m] ! (iord ! 2)), ([i, j, k, l, m] ! (iord ! 3)),
             ([i, j, k, l, m] ! (iord ! 4))) \<in> set (foreach_idx (shape t))"
        unfolding set_foreach_idx using vq by simp
      then have "sub2ind (shape t)
             ([i, j, k, l, m] ! (iord ! 0)) ([i, j, k, l, m] ! (iord ! 1))
             ([i, j, k, l, m] ! (iord ! 2)) ([i, j, k, l, m] ! (iord ! 3))
             ([i, j, k, l, m] ! (iord ! 4)) < length (data t)"
        unfolding len by (rule foreach_idx_nth(1))
      then show "bindE (permute_subs order i j k l m) (\<lambda>subs.
          tensor_at t (subs ! 0) (subs ! 1) (subs ! 2) (subs ! 3) (subs ! 4))
          = Inr (val i j k l m)"
        unfolding permute_subs_closed[OF o1 o2 b1 b2] val_def
        by (simp add: bindE_def tensor_at_def load_def upt_5)
    qed
    then show ?thesis
      using foreach_assign_Inr[of "allocate sz"
          "\<lambda>i j k l m. bindE (permute_subs order i j k l m) (\<lambda>subs.
             tensor_at t (subs ! 0) (subs ! 1) (subs ! 2) (subs ! 3) (subs ! 4))" val]
      by simp
  qed
  have "permute order t
      = Inr ((allocate sz)\<lparr>data := map (\<lambda>(i, j, k, l, m). val i j k l m) (foreach_idx sz)\<rparr>)"
    unfolding permute_def a by (simp only: bindE_simps b zeros_Inr d)
  then show ?thesis
    by (simp add: allocate_def sz_def val_def)
qed


text \<open>
  Claim C9.  For a well-formed tensor, an \<open>order\<close> that is a bijection on 0..4 and its
  inverse \<open>iord\<close> (\<open>iord[order[p]] = p\<close>), \<open>permute(order)\<close> returns a tensor and
  \<open>permute(iord)\<close> of that tensor is the original one: the same shape and the same
  buffer.
\<close>

theorem permute_inverse_roundtrip:
  fixes order iord :: "nat list"
  assumes ok: "Tensor_ok t"
    and o1: "length order = 5" and o2: "set order = {0..<5}"
    and b1: "length iord = 5" and b2: "\<forall>p<5. iord ! (order ! p) = p"
  shows "\<exists>p. permute order t = Inr p \<and> permute iord p = Inr t"
proof -
  define sz where "sz = map (\<lambda>q. shape t ! (order ! q)) [0..<5]"
  define val where "val = (\<lambda>i j k l m. data t ! sub2ind (shape t)
                          ([i, j, k, l, m] ! (iord ! 0)) ([i, j, k, l, m] ! (iord ! 1))
                          ([i, j, k, l, m] ! (iord ! 2)) ([i, j, k, l, m] ! (iord ! 3))
                          ([i, j, k, l, m] ! (iord ! 4)))"
  define d1 where "d1 = map (\<lambda>(i, j, k, l, m). val i j k l m) (foreach_idx sz)"
  define t1 where "t1 = \<lparr>shape = sz, data = d1\<rparr>"
  have sok: "Shape_ok (shape t)" and len: "length (data t) = shape_size (shape t)"
    using ok by (simp_all add: Tensor_ok_def)
  have ls: "length (shape t) = 5" using sok by (simp add: Shape_ok_def)
  note rng = perm5_range[OF o1 o2]
  note inv = perm5_inverse[OF o1 o2 b1 b2]
  note brng = perm5_range[OF b1 inv(1)]
  have szq: "\<And>q. q < 5 \<Longrightarrow> sz ! q = shape t ! (order ! q)"
    by (simp add: sz_def)
  have first: "permute order t = Inr t1"
    unfolding t1_def d1_def val_def sz_def by (rule permute_Inr[OF ok o1 o2 b1 b2])
  have ok1: "Tensor_ok t1"
  proof -
    have "length sz = 5" by (simp add: sz_def)
    moreover have "list_all (\<lambda>d. 1 \<le> d) sz"
      unfolding list_all_length
    proof (intro allI impI)
      fix q assume "q < length sz"
      then have q: "q < 5" by (simp add: sz_def)
      then show "1 \<le> sz ! q"
        using Shape_ok_nth[OF sok rng[OF q]] by (simp add: szq)
    qed
    ultimately show ?thesis
      by (simp add: Tensor_ok_def Shape_ok_def t1_def d1_def length_foreach_idx)
  qed
  have sh: "map (\<lambda>q. sz ! (iord ! q)) [0..<5] = shape t"
  proof (rule nth_equalityI)
    show "length (map (\<lambda>q. sz ! (iord ! q)) [0..<5]) = length (shape t)"
      by (simp add: ls)
  next
    fix q assume "q < length (map (\<lambda>q. sz ! (iord ! q)) [0..<5])"
    then have q: "q < 5" by simp
    then show "map (\<lambda>q. sz ! (iord ! q)) [0..<5] ! q = shape t ! q"
      using szq[OF brng[OF q]] inv(2) by simp
  qed
  have second: "permute iord t1
     = Inr \<lparr>shape = shape t,
            data = map (\<lambda>(i, j, k, l, m). d1 ! sub2ind sz
                          ([i, j, k, l, m] ! (order ! 0)) ([i, j, k, l, m] ! (order ! 1))
                          ([i, j, k, l, m] ! (order ! 2)) ([i, j, k, l, m] ! (order ! 3))
                          ([i, j, k, l, m] ! (order ! 4)))
                     (foreach_idx (shape t))\<rparr>"
    using permute_Inr[OF ok1 b1 inv(1) o1 inv(2)] by (simp add: t1_def sh)
  have pt: "\<And>i j k l m. (i, j, k, l, m) \<in> set (foreach_idx (shape t)) \<Longrightarrow>
       d1 ! sub2ind sz
          ([i, j, k, l, m] ! (order ! 0)) ([i, j, k, l, m] ! (order ! 1))
          ([i, j, k, l, m] ! (order ! 2)) ([i, j, k, l, m] ! (order ! 3))
          ([i, j, k, l, m] ! (order ! 4))
       = data t ! sub2ind (shape t) i j k l m"
  proof -
    fix i j k l m
    assume "(i, j, k, l, m) \<in> set (foreach_idx (shape t))"
    then have "i < shape t ! 0" "j < shape t ! 1" "k < shape t ! 2" "l < shape t ! 3"
      "m < shape t ! 4"
      by (simp_all add: set_foreach_idx)
    then have vp: "\<And>p. p < 5 \<Longrightarrow> [i, j, k, l, m] ! p < shape t ! p"
      by (auto simp: less_5_cases)
    define x where "x = (\<lambda>q. [i, j, k, l, m] ! (order ! q))"
    have xq: "\<And>q. q < 5 \<Longrightarrow> x q < sz ! q"
      unfolding x_def using vp rng by (simp add: szq)
    have mem: "(x 0, x 1, x 2, x 3, x 4) \<in> set (foreach_idx sz)"
      unfolding set_foreach_idx using xq by simp
    have "d1 ! sub2ind sz (x 0) (x 1) (x 2) (x 3) (x 4) = val (x 0) (x 1) (x 2) (x 3) (x 4)"
      unfolding d1_def using foreach_idx_nth[OF mem]
      by (simp add: length_foreach_idx)
    also have "\<dots> = data t ! sub2ind (shape t) i j k l m"
    proof -
      have "\<And>q. q < 5 \<Longrightarrow> [x 0, x 1, x 2, x 3, x 4] ! (iord ! q) = [i, j, k, l, m] ! q"
      proof -
        fix q :: nat assume q: "q < 5"
        have "[x 0, x 1, x 2, x 3, x 4] ! (iord ! q) = x (iord ! q)"
          using brng[OF q] by (auto simp: less_5_cases)
        also have "\<dots> = [i, j, k, l, m] ! q"
          unfolding x_def using inv(2) q by simp
        finally show "[x 0, x 1, x 2, x 3, x 4] ! (iord ! q) = [i, j, k, l, m] ! q" .
      qed
      then have "[x 0, x 1, x 2, x 3, x 4] ! (iord ! 0) = i"
        "[x 0, x 1, x 2, x 3, x 4] ! (iord ! 1) = j"
        "[x 0, x 1, x 2, x 3, x 4] ! (iord ! 2) = k"
        "[x 0, x 1, x 2, x 3, x 4] ! (iord ! 3) = l"
        "[x 0, x 1, x 2, x 3, x 4] ! (iord ! 4) = m"
        by force+
      then show ?thesis unfolding val_def by (simp only:)
    qed
    finally show "d1 ! sub2ind sz
          ([i, j, k, l, m] ! (order ! 0)) ([i, j, k, l, m] ! (order ! 1))
          ([i, j, k, l, m] ! (order ! 2)) ([i, j, k, l, m] ! (order ! 3))
          ([i, j, k, l, m] ! (order ! 4))
       = data t ! sub2ind (shape t) i j k l m"
      unfolding x_def .
  qed
  have "map (\<lambda>(i, j, k, l, m). d1 ! sub2ind sz
                          ([i, j, k, l, m] ! (order ! 0)) ([i, j, k, l, m] ! (order ! 1))
                          ([i, j, k, l, m] ! (order ! 2)) ([i, j, k, l, m] ! (order ! 3))
                          ([i, j, k, l, m] ! (order ! 4)))
                     (foreach_idx (shape t))
      = map (\<lambda>(i, j, k, l, m). data t ! sub2ind (shape t) i j k l m) (foreach_idx (shape t))"
    by (rule map_cong) (use pt in auto)
  also have "\<dots> = map ((!) (data t))
      (map (\<lambda>(i, j, k, l, m). sub2ind (shape t) i j k l m) (foreach_idx (shape t)))"
    by (simp add: comp_def case_prod_unfold)
  also have "\<dots> = map ((!) (data t)) [0..<length (data t)]"
    by (simp only: foreach_idx_sub2ind len)
  also have "\<dots> = data t"
    by (rule map_nth)
  finally have "permute iord t1 = Inr t"
    using second by simp
  with first show ?thesis by blast
qed

lemma replicate_numeral: "replicate (numeral n) x = x # replicate (pred_numeral n) x"
  by (simp add: numeral_eq_Suc)

text \<open>The permuted tensor of the example that follows.\<close>

lemma permute_example:
  "permute [2, 0, 1, 3, 4] \<lparr>shape = [2, 1, 3, 1, 1], data = [1, 2, 3, 4, 5, 6 :: real]\<rparr>
     = Inr \<lparr>shape = [3, 2, 1, 1, 1], data = [1, 4, 2, 5, 3, 6]\<rparr>"
  by (simp add: permute_def permute_subs_def mkShape_def zeros_Inr tensor_eval upt_rec
      replicate_numeral)

theorem permute_inverse_roundtrip_witness:
  "Tensor_ok \<lparr>shape = [2, 1, 3, 1, 1], data = [1, 2, 3, 4, 5, 6 :: real]\<rparr>
   \<and> length [2, 0, 1, 3, 4 :: nat] = 5 \<and> set [2, 0, 1, 3, 4 :: nat] = {0..<5}
   \<and> length [1, 2, 0, 3, 4 :: nat] = 5
   \<and> [1, 2, 0, 3, 4] ! ([2, 0, 1, 3, 4] ! 0) = (0 :: nat)
   \<and> [1, 2, 0, 3, 4] ! ([2, 0, 1, 3, 4] ! 1) = (1 :: nat)
   \<and> [1, 2, 0, 3, 4] ! ([2, 0, 1, 3, 4] ! 2) = (2 :: nat)
   \<and> [1, 2, 0, 3, 4] ! ([2, 0, 1, 3, 4] ! 3) = (3 :: nat)
   \<and> [1, 2, 0, 3, 4] ! ([2, 0, 1, 3, 4] ! 4) = (4 :: nat)
   \<and> permute [2, 0, 1, 3, 4] \<lparr>shape = [2, 1, 3, 1, 1], data = [1, 2, 3, 4, 5, 6 :: real]\<rparr>
       = Inr \<lparr>shape = [3, 2, 1, 1, 1], data = [1, 4, 2, 5, 3, 6]\<rparr>
   \<and> permute [1, 2, 0, 3, 4] \<lparr>shape = [3, 2, 1, 1, 1], data = [1, 4, 2, 5, 3, 6 :: real]\<rparr>
       = Inr \<lparr>shape = [2, 1, 3, 1, 1], data = [1, 2, 3, 4, 5, 6]\<rparr>"
proof -
  have ok: "Tensor_ok \<lparr>shape = [2, 1, 3, 1, 1], data = [1, 2, 3, 4, 5, 6 :: real]\<rparr>"
    by (simp add: Tensor_ok_def Shape_ok_def shape_size_def)
  have o2: "set [2, 0, 1, 3, 4 :: nat] = {0..<5}"
    by (auto simp: less_5_cases)
  have b2: "\<forall>p<5. [1, 2, 0, 3, 4] ! ([2, 0, 1, 3, 4] ! p) = (p :: nat)"
    by (auto simp: less_5_cases)
  have l1: "length [2, 0, 1, 3, 4 :: nat] = 5" and l2: "length [1, 2, 0, 3, 4 :: nat] = 5"
    by simp_all
  from permute_inverse_roundtrip[OF ok l1 o2 l2 b2] obtain p where
    p1: "permute [2, 0, 1, 3, 4] \<lparr>shape = [2, 1, 3, 1, 1], data = [1, 2, 3, 4, 5, 6 :: real]\<rparr>
       = Inr p"
    and p2: "permute [1, 2, 0, 3, 4] p
       = Inr \<lparr>shape = [2, 1, 3, 1, 1], data = [1, 2, 3, 4, 5, 6]\<rparr>"
    by blast
  from p1 have "p = \<lparr>shape = [3, 2, 1, 1, 1], data = [1, 4, 2, 5, 3, 6]\<rparr>"
    unfolding permute_example by simp
  with p2 have "permute [1, 2, 0, 3, 4] \<lparr>shape = [3, 2, 1, 1, 1], data = [1, 4, 2, 5, 3, 6 :: real]\<rparr>
       = Inr \<lparr>shape = [2, 1, 3, 1, 1], data = [1, 2, 3, 4, 5, 6]\<rparr>"
    by simp
  moreover have "[1, 2, 0, 3, 4] ! ([2, 0, 1, 3, 4] ! 0) = (0 :: nat)"
    "[1, 2, 0, 3, 4] ! ([2, 0, 1, 3, 4] ! 1) = (1 :: nat)"
    "[1, 2, 0, 3, 4] ! ([2, 0, 1, 3, 4] ! 2) = (2 :: nat)"
    "[1, 2, 0, 3, 4] ! ([2, 0, 1, 3, 4] ! 3) = (3 :: nat)"
    "[1, 2, 0, 3, 4] ! ([2, 0, 1, 3, 4] ! 4) = (4 :: nat)"
    by simp_all
  ultimately show ?thesis
    using ok l1 o2 l2 permute_example by (intro conjI)
qed

section \<open>The graph on concrete heaps\<close>

text \<open>The definitions that evaluate the graph code on a concrete heap.\<close>

lemmas graph_eval =
  new_Placeholder_def new_Variable_def new_Operation_def deref_def bindE_def Let_def
  getNodeType_def getInputValues_def setOutput_def feed_index_def run_step_def run_def
  getOperations_def Session_new_def Graph_new_def load_def

lemma diamond_int: "diamond int_ops = Inr diamond_heap"
  by (simp add: diamond_def diamond_heap_def int_ops_def graph_eval)

lemma add_graph_int: "add_graph int_ops 5 = Inr add_heap"
  by (simp add: add_graph_def add_heap_def int_ops_def graph_eval)

lemma sigmoid_graph_int: "sigmoid_graph int_ops = Inr sigmoid_heap"
  by (simp add: sigmoid_graph_def sigmoid_heap_def int_ops_def graph_eval)

section \<open>Collecting the graph\<close>

lemma graph_app_simps [simp]:
  "placeholders (graph_app g ps vs os) = placeholders g @ ps"
  "variables (graph_app g ps vs os) = variables g @ vs"
  "operations (graph_app g ps vs os) = operations g @ os"
  "graph_app (graph_app g ps vs os) ps' vs' os' = graph_app g (ps @ ps') (vs @ vs') (os @ os')"
  "graph_app g [] [] [] = g"
  by (simp_all add: graph_app_def)

lemma graph_app_updates:
  "g\<lparr>placeholders := placeholders g @ ps\<rparr> = graph_app g ps [] []"
  "g\<lparr>variables := variables g @ vs\<rparr> = graph_app g [] vs []"
  "g\<lparr>operations := operations g @ os\<rparr> = graph_app g [] [] os"
  by (simp_all add: graph_app_def)

lemma ordered_ops_Nil [simp]: "ordered_ops h []"
  by (simp add: ordered_ops_def)

lemma ordered_ops_append:
  assumes "ordered_ops h os1" "ordered_ops h os2"
  shows "ordered_ops h (os1 @ os2)"
  unfolding ordered_ops_def
proof (intro allI impI ballI)
  fix i inp
  assume i: "i < length (os1 @ os2)"
    and inp: "inp \<in> set (input_nodes (h ! ((os1 @ os2) ! i)))"
    and op: "getNodeType (h ! inp) = OPERATION"
  show "inp \<in> set (take i (os1 @ os2))"
  proof (cases "i < length os1")
    case True
    then have "inp \<in> set (take i os1)"
      using assms(1) inp op by (simp add: ordered_ops_def nth_append)
    then show ?thesis by simp
  next
    case False
    then have "i - length os1 < length os2" using i by simp
    moreover have "(os1 @ os2) ! i = os2 ! (i - length os1)"
      using False by (simp add: nth_append)
    ultimately have "inp \<in> set (take (i - length os1) os2)"
      using assms(2) inp op by (simp add: ordered_ops_def)
    then show ?thesis by simp
  qed
qed

lemma ordered_ops_snoc:
  assumes "ordered_ops h os"
    and "\<And>inp. inp \<in> set (input_nodes (h ! rt)) \<Longrightarrow> getNodeType (h ! inp) = OPERATION
           \<Longrightarrow> inp \<in> set os"
  shows "ordered_ops h (os @ [rt])"
  unfolding ordered_ops_def
proof (intro allI impI ballI)
  fix i inp
  assume i: "i < length (os @ [rt])"
    and inp: "inp \<in> set (input_nodes (h ! ((os @ [rt]) ! i)))"
    and op: "getNodeType (h ! inp) = OPERATION"
  show "inp \<in> set (take i (os @ [rt]))"
  proof (cases "i < length os")
    case True
    then have "inp \<in> set (take i os)"
      using assms(1) inp op by (simp add: ordered_ops_def nth_append)
    then show ?thesis using True by simp
  next
    case False
    then have "i = length os" using i by simp
    then show ?thesis using assms(2) inp op by simp
  qed
qed

lemma collected_empty: "collected h {} [] [] []"
  by (simp add: collected_def)

lemma collected_union:
  assumes "collected h R1 ps1 vs1 os1" "collected h R2 ps2 vs2 os2"
  shows "collected h (R1 \<union> R2) (ps1 @ ps2) (vs1 @ vs2) (os1 @ os2)"
  using assms unfolding collected_def
  by (auto intro: ordered_ops_append)

lemma reaches_valid: "reaches h rt n \<Longrightarrow> rt < length h"
  by (erule reaches.cases) simp_all

lemma reaches_leaf:
  assumes "rt < length h" "getNodeType (h ! rt) \<noteq> OPERATION"
  shows "{n. reaches h rt n} = {rt}"
proof (intro equalityI subsetI)
  fix n assume "n \<in> {n. reaches h rt n}"
  then have "reaches h rt n" by simp
  then show "n \<in> {rt}" using assms(2) by (cases rule: reaches.cases) simp_all
next
  fix n assume "n \<in> {rt}"
  then show "n \<in> {n. reaches h rt n}" using assms(1) by (simp add: reaches_self)
qed

lemma reaches_op:
  assumes "rt < length h" "getNodeType (h ! rt) = OPERATION"
  shows "{n. reaches h rt n} = insert rt (\<Union>i\<in>set (input_nodes (h ! rt)). {n. reaches h i n})"
proof (intro equalityI subsetI)
  fix n assume "n \<in> {n. reaches h rt n}"
  then have "reaches h rt n" by simp
  then show "n \<in> insert rt (\<Union>i\<in>set (input_nodes (h ! rt)). {n. reaches h i n})"
    by (cases rule: reaches.cases) auto
next
  fix n assume "n \<in> insert rt (\<Union>i\<in>set (input_nodes (h ! rt)). {n. reaches h i n})"
  then show "n \<in> {n. reaches h rt n}"
    using assms by (auto intro: reaches_self reaches_input)
qed

lemma heap_ok_input:
  "heap_ok h \<Longrightarrow> p < length h \<Longrightarrow> i \<in> set (input_nodes (h ! p)) \<Longrightarrow> i < p"
  by (simp add: heap_ok_def list_all_iff)

lemma collect_collected:
  assumes wf: "heap_ok h"
  shows "rt < length h \<Longrightarrow> rt < k \<Longrightarrow>
     \<exists>ps vs os. collect k h rt g = Inr (graph_app g ps vs os)
        \<and> collected h {n. reaches h rt n} ps vs os"
proof (induction rt arbitrary: k g rule: less_induct)
  case (less rt)
  from less.prems(2) obtain k' where k: "k = Suc k'" and k': "rt \<le> k'"
    by (cases k) simp_all
  have inputs: "\<And>g. \<forall>i\<in>set is. i < rt \<Longrightarrow>
      \<exists>ps vs os. collect_inputs k' h is g = Inr (graph_app g ps vs os)
        \<and> collected h (\<Union>i\<in>set is. {n. reaches h i n}) ps vs os" for "is"
  proof (induction "is")
    case Nil
    have "collect_inputs k' h [] g = Inr (graph_app g [] [] [])" by simp
    then show ?case using collected_empty by (metis UN_empty empty_set)
  next
    case (Cons i rest)
    have i: "i < rt" using Cons.prems by simp
    then have "i < length h" "i < k'" using less.prems(1) k' by simp_all
    from less.IH[OF i this] obtain ps1 vs1 os1 where
      c1: "collect k' h i g = Inr (graph_app g ps1 vs1 os1)"
      and q1: "collected h {n. reaches h i n} ps1 vs1 os1"
      by blast
    from Cons.IH[of "graph_app g ps1 vs1 os1"] Cons.prems obtain ps2 vs2 os2 where
      c2: "collect_inputs k' h rest (graph_app g ps1 vs1 os1)
             = Inr (graph_app (graph_app g ps1 vs1 os1) ps2 vs2 os2)"
      and q2: "collected h (\<Union>i\<in>set rest. {n. reaches h i n}) ps2 vs2 os2"
      by auto
    have "collect_inputs k' h (i # rest) g = Inr (graph_app g (ps1 @ ps2) (vs1 @ vs2) (os1 @ os2))"
      using c1 c2 by simp
    moreover have "collected h (\<Union>i\<in>set (i # rest). {n. reaches h i n})
        (ps1 @ ps2) (vs1 @ vs2) (os1 @ os2)"
      using collected_union[OF q1 q2] by simp
    ultimately show ?case by blast
  qed
  have d: "deref h rt = Inr (h ! rt)" using less.prems(1) by (simp add: deref_def)
  consider (P) "getNodeType (h ! rt) = PLACEHOLDER" | (V) "getNodeType (h ! rt) = VARIABLE"
    | (O) "getNodeType (h ! rt) = OPERATION"
    by (cases "getNodeType (h ! rt)") simp_all
  then show ?case
  proof cases
    case P
    then have "collect k h rt g = Inr (graph_app g [rt] [] [])"
      by (simp add: k d graph_app_updates)
    moreover have "collected h {n. reaches h rt n} [rt] [] []"
      using P reaches_leaf[OF less.prems(1)] by (auto simp: collected_def)
    ultimately show ?thesis by blast
  next
    case V
    then have "collect k h rt g = Inr (graph_app g [] [rt] [])"
      by (simp add: k d graph_app_updates)
    moreover have "collected h {n. reaches h rt n} [] [rt] []"
      using V reaches_leaf[OF less.prems(1)] by (auto simp: collected_def)
    ultimately show ?thesis by blast
  next
    case O
    have "\<forall>i\<in>set (input_nodes (h ! rt)). i < rt"
      using heap_ok_input[OF wf less.prems(1)] by blast
    from inputs[OF this, of g] obtain ps vs os where
      c: "collect_inputs k' h (input_nodes (h ! rt)) g = Inr (graph_app g ps vs os)"
      and q: "collected h (\<Union>i\<in>set (input_nodes (h ! rt)). {n. reaches h i n}) ps vs os"
      by blast
    have "collect k h rt g = Inr (graph_app g ps vs (os @ [rt]))"
      using O c by (simp add: k d graph_app_updates)
    moreover have "collected h {n. reaches h rt n} ps vs (os @ [rt])"
    proof -
      have sub: "\<And>inp. inp \<in> set (input_nodes (h ! rt)) \<Longrightarrow> getNodeType (h ! inp) = OPERATION
           \<Longrightarrow> inp \<in> set os"
      proof -
        fix inp assume a: "inp \<in> set (input_nodes (h ! rt))" "getNodeType (h ! inp) = OPERATION"
        then have "inp < rt" using heap_ok_input[OF wf less.prems(1)] by blast
        then have "reaches h inp inp" using less.prems(1) by (simp add: reaches_self)
        then show "inp \<in> set os" using q a by (auto simp: collected_def)
      qed
      have "ordered_ops h (os @ [rt])"
        using q sub by (intro ordered_ops_snoc) (simp_all add: collected_def)
      then show ?thesis
        using q O unfolding collected_def reaches_op[OF less.prems(1) O]
        by auto
    qed
    ultimately show ?thesis by blast
  qed
qed

text \<open>
  Claim C4, as the source has it.  On a well-formed heap, \<open>collect\<close> from any root
  with fuel \<open>root + 1\<close> returns; the three collections hold exactly the nodes reachable
  from the root, each in the collection of its type (so each at least once; nothing
  keeps a node that is reachable along two paths from being appended twice), and every
  occurrence of an operation comes after an occurrence of each of its input operations.
\<close>

theorem collect_reachable_ordered:
  assumes "heap_ok h" "rt < length h"
  shows "\<exists>g. collect (Suc rt) h rt Graph_new = Inr g
    \<and> (\<forall>n. n \<in> set (placeholders g) \<longleftrightarrow> reaches h rt n \<and> getNodeType (h ! n) = PLACEHOLDER)
    \<and> (\<forall>n. n \<in> set (variables g) \<longleftrightarrow> reaches h rt n \<and> getNodeType (h ! n) = VARIABLE)
    \<and> (\<forall>n. n \<in> set (operations g) \<longleftrightarrow> reaches h rt n \<and> getNodeType (h ! n) = OPERATION)
    \<and> (\<forall>i<length (operations g). \<forall>inp\<in>set (input_nodes (h ! (operations g ! i))).
          getNodeType (h ! inp) = OPERATION \<longrightarrow> inp \<in> set (take i (operations g)))"
proof -
  from collect_collected[OF assms, of "Suc rt" Graph_new] obtain ps vs os where
    c: "collect (Suc rt) h rt Graph_new = Inr (graph_app Graph_new ps vs os)"
    and q: "collected h {n. reaches h rt n} ps vs os"
    by auto
  have "graph_app Graph_new ps vs os = \<lparr>placeholders = ps, variables = vs, operations = os\<rparr>"
    by (simp add: graph_app_def Graph_new_def)
  with c q show ?thesis
    unfolding collected_def ordered_ops_def by auto
qed

theorem collect_reachable_ordered_witness:
  "heap_ok diamond_heap \<and> 3 < length diamond_heap
   \<and> collect 4 diamond_heap 3 Graph_new
       = Inr \<lparr>placeholders = [0, 0], variables = [], operations = [1, 2, 3]\<rparr>
   \<and> reaches diamond_heap 3 0 \<and> reaches diamond_heap 3 2"
proof -
  have ok: "heap_ok diamond_heap" by (simp add: heap_ok_def diamond_heap_def upt_rec)
  have len: "3 < length diamond_heap" by (simp add: diamond_heap_def)
  have ev: "collect (Suc 3) diamond_heap 3 Graph_new
      = Inr \<lparr>placeholders = [0, 0], variables = [], operations = [1, 2, 3]\<rparr>"
    by (simp add: diamond_heap_def numeral_3_eq_3 deref_def getNodeType_def Graph_new_def)
  from collect_reachable_ordered[OF ok len] ev
  have "reaches diamond_heap 3 0" "reaches diamond_heap 3 2" by auto
  with ok len ev show ?thesis by auto
qed

text \<open>
  Claim C4 as stated fails on the diamond: the placeholder (node 0), reachable from the
  root (node 3) through both operations, is appended twice.
\<close>

theorem collect_diamond_counterexample:
  "collect 3 diamond_heap 3 Graph_new
     = Inr \<lparr>placeholders = [0, 0], variables = [], operations = [1, 2, 3]\<rparr>
   \<and> count_list (placeholders \<lparr>placeholders = [0, 0], variables = [], operations = [1, 2, 3]\<rparr>) 0
       = 2"
  by (simp add: diamond_heap_def numeral_3_eq_3 deref_def getNodeType_def Graph_new_def)

section \<open>The backward pass\<close>

lemma backward_calls_first:
  "backward ops k h p = Inr (d, calls) \<Longrightarrow> \<exists>cs. calls = p # cs"
proof (cases k)
  case 0
  then show "backward ops k h p = Inr (d, calls) \<Longrightarrow> \<exists>cs. calls = p # cs" by simp
next
  case (Suc k')
  assume "backward ops k h p = Inr (d, calls)"
  then show "\<exists>cs. calls = p # cs"
    unfolding Suc
    by (auto simp: bindE_def split: sum.splits NodeClass.splits if_splits prod.splits)
qed

lemma backward_inherited:
  assumes "deref h p = Inr node" "inherits_backward node"
    and "Node_backward ops k h p = Inr (delta, calls)"
  shows "backward ops (Suc k) h p = Inr (delta, p # calls)"
  using assms
  by (auto simp: inherits_backward_def split: NodeClass.splits)

lemma Node_backward_one_consumer:
  assumes "deref h p = Inr node" "consumers node = [c]"
    and "backward ops k h c = Inr (dc, calls)"
    and "op_plus ops (acc_value ops) dc = Inr d"
  shows "Node_backward ops k h p = Inr (d, calls)"
  using assms by (simp add: bindE_def)

text \<open>
  Claim C1, as the source has it.  In a diamond (\<open>x\<close> consumed by \<open>a\<close> and \<open>b\<close>, both
  consumed by \<open>s\<close> only, neither overriding \<open>backward\<close>), \<open>Node::backward\<close> on \<open>x\<close>
  returns \<open>value\<close> plus the result of \<open>a\<close> plus the result of \<open>b\<close>, each added once.
  Nothing is memoized: the whole \<open>backward\<close> of \<open>s\<close> runs once below \<open>a\<close> and once more
  below \<open>b\<close>, so \<open>s\<close> occurs at least twice among the calls.
\<close>

theorem backward_diamond_recomputes:
  assumes x: "deref h x = Inr nx" "consumers nx = [a, b]"
    and a: "deref h a = Inr na" "inherits_backward na" "consumers na = [s]"
    and b: "deref h b = Inr nb" "inherits_backward nb" "consumers nb = [s]"
    and s: "backward ops k h s = Inr (ds, calls_s)"
    and plus: "op_plus ops (acc_value ops) ds = Inr dab"
      "op_plus ops (acc_value ops) dab = Inr d1" "op_plus ops d1 dab = Inr dx"
  shows "Node_backward ops (Suc k) h x = Inr (dx, a # calls_s @ b # calls_s)
    \<and> 2 \<le> count_list (a # calls_s @ b # calls_s) s"
proof -
  have na: "Node_backward ops k h a = Inr (dab, calls_s)"
    by (rule Node_backward_one_consumer[OF a(1) a(3) s plus(1)])
  have nb: "Node_backward ops k h b = Inr (dab, calls_s)"
    by (rule Node_backward_one_consumer[OF b(1) b(3) s plus(1)])
  have ba: "backward ops (Suc k) h a = Inr (dab, a # calls_s)"
    by (rule backward_inherited[OF a(1) a(2) na])
  have bb: "backward ops (Suc k) h b = Inr (dab, b # calls_s)"
    by (rule backward_inherited[OF b(1) b(2) nb])
  have "Node_backward ops (Suc k) h x = Inr (dx, a # calls_s @ b # calls_s)"
    using x ba bb plus by (simp add: bindE_def del: backward.simps)
  moreover from backward_calls_first[OF s] obtain cs where "calls_s = s # cs" by blast
  then have "2 \<le> count_list (a # calls_s @ b # calls_s) s" by simp
  ultimately show ?thesis by simp
qed

theorem backward_diamond_recomputes_witness:
  "deref diamond_heap 0 = Inr (diamond_heap ! 0) \<and> consumers (diamond_heap ! 0) = [1, 2]
   \<and> consumers (diamond_heap ! 1) = [3] \<and> consumers (diamond_heap ! 2) = [3]
   \<and> backward int_ops 1 diamond_heap 3 = Inr (1, [3])
   \<and> Node_backward int_ops 2 diamond_heap 0 = Inr (5, [1, 3, 2, 3])
   \<and> 2 \<le> count_list [1, 3, 2, 3 :: nat] 3"
proof -
  have s: "backward int_ops 1 diamond_heap 3 = Inr (1, [3])"
    by (simp add: diamond_heap_def deref_def int_ops_def bindE_def)
  have "Node_backward int_ops (Suc 1) diamond_heap 0 = Inr (5, 1 # [3] @ 2 # [3])
      \<and> 2 \<le> count_list (1 # [3] @ 2 # [3]) (3 :: nat)"
    by (rule backward_diamond_recomputes[where nx = "diamond_heap ! 0"
          and na = "diamond_heap ! 1" and nb = "diamond_heap ! 2"
          and ds = 1 and dab = 2 and ?d1.0 = 3, OF _ _ _ _ _ _ _ _ s])
      (simp_all add: diamond_heap_def deref_def inherits_backward_def int_ops_def)
  then have "Node_backward int_ops 2 diamond_heap 0 = Inr (5, [1, 3, 2, 3])
      \<and> 2 \<le> count_list [1, 3, 2, 3 :: nat] 3"
    by (simp add: numeral_2_eq_2)
  with s show ?thesis by (simp add: diamond_heap_def deref_def)
qed

text \<open>
  Claim C1 as stated fails on the diamond: during \<open>backward\<close> on the placeholder (node 0)
  the gradient of the root (node 3) is computed twice, not exactly once.
\<close>

theorem backward_diamond_counterexample:
  "backward int_ops 3 diamond_heap 0 = Inr (5, [0, 1, 3, 2, 3])
   \<and> count_list [0, 1, 3, 2, 3 :: nat] 3 = 2"
  by (simp add: diamond_heap_def numeral_3_eq_3 deref_def int_ops_def bindE_def)

section \<open>Running a session\<close>

lemma mapE_Inl: "mapE f xs = Inl e \<Longrightarrow> \<exists>x\<in>set xs. f x = Inl e"
  by (induction xs) (auto split: sum.splits)

lemma deref_Inl: "deref h p = Inl e \<Longrightarrow> e = InvalidPointer"
  by (simp add: deref_def split: if_splits)

lemma getInputValues_Inl: "getInputValues h node = Inl e \<Longrightarrow> e = InvalidPointer"
  unfolding getInputValues_def
  by (auto dest!: mapE_Inl bindE_Inl deref_Inl)

lemma same_graph_refl: "same_graph h h"
  by (simp add: same_graph_def)

lemma same_graph_setOutput:
  assumes "same_graph h h'"
  shows "same_graph h (setOutput h' p t)"
proof -
  have "\<And>q. q < length h' \<Longrightarrow> node_class (setOutput h' p t ! q) = node_class (h' ! q)
      \<and> input_nodes (setOutput h' p t ! q) = input_nodes (h' ! q)"
  proof -
    fix q assume "q < length h'"
    then show "node_class (setOutput h' p t ! q) = node_class (h' ! q)
      \<and> input_nodes (setOutput h' p t ! q) = input_nodes (h' ! q)"
      by (cases "q = p") (simp_all add: setOutput_def)
  qed
  then show ?thesis
    using assms by (simp add: same_graph_def setOutput_def)
qed

lemma mapE_Inr_all: "mapE f xs = Inr ys \<Longrightarrow> \<forall>x\<in>set xs. \<exists>y. f x = Inr y"
  by (induction xs arbitrary: ys) (auto split: sum.splits)

lemma getInputValues_Inr:
  assumes "\<forall>i\<in>set (input_nodes node). i < length h"
  shows "getInputValues h node = Inr (map (\<lambda>i. node_output (h ! i)) (input_nodes node))"
  unfolding getInputValues_def
  by (rule mapE_Inr) (use assms in \<open>simp add: bindE_def deref_def\<close>)

text \<open>One step of the loop of \<open>run\<close>, on a heap with the nodes and edges of \<open>h\<close>.\<close>

lemma run_step_cases:
  assumes sg: "same_graph h h'"
  shows "(\<exists>h'' fd'. run_step ops p (h', fd) = Inr (h'', fd') \<and> same_graph h h'')
    \<or> (run_step ops p (h', fd) = Inl InvalidPointer
        \<and> \<not> (p < length h \<and> list_all (\<lambda>i. i < length h) (input_nodes (h ! p))))
    \<or> (\<exists>oc inputs e. p < length h \<and> node_class (h ! p) = Operation oc
          \<and> length inputs = length (input_nodes (h ! p))
          \<and> op_compute ops oc inputs = Inl e \<and> run_step ops p (h', fd) = Inl e)"
proof (cases "p < length h")
  case False
  then have "run_step ops p (h', fd) = Inl InvalidPointer"
    using sg by (simp add: run_step_def same_graph_def deref_def bindE_def)
  with False show ?thesis by simp
next
  case True
  then have d: "deref h' p = Inr (h' ! p)" using sg by (simp add: same_graph_def deref_def)
  have cls: "node_class (h' ! p) = node_class (h ! p)"
    and inp: "input_nodes (h' ! p) = input_nodes (h ! p)"
    using sg True by (simp_all add: same_graph_def)
  show ?thesis
  proof (cases "node_class (h ! p)")
    case Variable
    then have "run_step ops p (h', fd) = Inr (setOutput h' p (var_value (h' ! p)), fd)"
      by (simp add: run_step_def d bindE_def getNodeType_def cls)
    then show ?thesis using same_graph_setOutput[OF sg] by blast
  next
    case Placeholder
    then have "run_step ops p (h', fd)
        = Inr (setOutput h' p (fst (feed_index ops fd p)), snd (feed_index ops fd p))"
      by (simp add: run_step_def d bindE_def getNodeType_def cls split: prod.splits)
    then show ?thesis using same_graph_setOutput[OF sg] by blast
  next
    case (Operation oc)
    show ?thesis
    proof (cases "list_all (\<lambda>i. i < length h) (input_nodes (h ! p))")
      case False
      then obtain i where i: "i \<in> set (input_nodes (h' ! p))" "\<not> i < length h'"
        using sg inp by (auto simp: list_all_iff same_graph_def)
      have "getInputValues h' (h' ! p) = Inl InvalidPointer"
      proof (cases "getInputValues h' (h' ! p)")
        case (Inl e)
        then show ?thesis using getInputValues_Inl by blast
      next
        case (Inr vs)
        then have "\<forall>x\<in>set (input_nodes (h' ! p)). \<exists>y. bindE (deref h' x) (\<lambda>n. Inr (node_output n)) = Inr y"
          unfolding getInputValues_def by (rule mapE_Inr_all)
        with i show ?thesis by (auto simp: bindE_def deref_def)
      qed
      then have "run_step ops p (h', fd) = Inl InvalidPointer"
        using Operation by (simp add: run_step_def d bindE_def getNodeType_def cls)
      with False show ?thesis by simp
    next
      case all: True
      then have "\<forall>i\<in>set (input_nodes (h' ! p)). i < length h'"
        using sg inp by (simp add: list_all_iff same_graph_def)
      then have g: "getInputValues h' (h' ! p)
          = Inr (map (\<lambda>i. node_output (h' ! i)) (input_nodes (h' ! p)))"
        by (rule getInputValues_Inr)
      define inputs where "inputs = map (\<lambda>i. node_output (h' ! i)) (input_nodes (h' ! p))"
      have li: "length inputs = length (input_nodes (h ! p))" by (simp add: inputs_def inp)
      have r: "run_step ops p (h', fd)
          = bindE (op_compute ops oc inputs) (\<lambda>t. Inr (setOutput h' p t, fd))"
        using Operation by (simp add: run_step_def d bindE_def getNodeType_def cls g inputs_def)
      show ?thesis
      proof (cases "op_compute ops oc inputs")
        case (Inl e)
        then have "run_step ops p (h', fd) = Inl e" using r by (simp add: bindE_def)
        with Inl True Operation li show ?thesis by blast
      next
        case (Inr t)
        then have "run_step ops p (h', fd) = Inr (setOutput h' p t, fd)"
          using r by (simp add: bindE_def)
        then show ?thesis using same_graph_setOutput[OF sg] by blast
      qed
    qed
  qed
qed


lemma run_fold_cases:
  assumes "same_graph h h'"
  shows "(\<exists>h'' fd'. foldE (run_step ops) ps (h', fd) = Inr (h'', fd') \<and> same_graph h h'')
    \<or> (foldE (run_step ops) ps (h', fd) = Inl InvalidPointer \<and> \<not> pointers_ok h ps)
    \<or> (\<exists>q\<in>set ps. \<exists>oc inputs e. node_class (h ! q) = Operation oc
          \<and> length inputs = length (input_nodes (h ! q))
          \<and> op_compute ops oc inputs = Inl e \<and> foldE (run_step ops) ps (h', fd) = Inl e)"
  using assms
proof (induction ps arbitrary: h' fd)
  case Nil
  then show ?case by simp
next
  case (Cons p ps)
  from run_step_cases[OF Cons.prems, of ops p fd]
  consider (ok) h'' fd' where "run_step ops p (h', fd) = Inr (h'', fd')" "same_graph h h''"
    | (ptr) "run_step ops p (h', fd) = Inl InvalidPointer"
        "\<not> (p < length h \<and> list_all (\<lambda>i. i < length h) (input_nodes (h ! p)))"
    | (cmp) oc inputs e where "node_class (h ! p) = Operation oc"
        "length inputs = length (input_nodes (h ! p))"
        "op_compute ops oc inputs = Inl e" "run_step ops p (h', fd) = Inl e"
    by blast
  then show ?case
  proof cases
    case ok
    from Cons.IH[OF ok(2), of fd'] show ?thesis
    proof (elim disjE exE conjE bexE)
      fix h3 fd3
      assume "foldE (run_step ops) ps (h'', fd') = Inr (h3, fd3)" "same_graph h h3"
      then show ?thesis using ok(1) by simp
    next
      assume "foldE (run_step ops) ps (h'', fd') = Inl InvalidPointer" "\<not> pointers_ok h ps"
      then show ?thesis using ok(1) by (simp add: pointers_ok_def)
    next
      fix q oc inputs e
      assume "q \<in> set ps" "node_class (h ! q) = Operation oc"
        "length inputs = length (input_nodes (h ! q))"
        "op_compute ops oc inputs = Inl e" "foldE (run_step ops) ps (h'', fd') = Inl e"
      then have "\<exists>q\<in>set (p # ps). \<exists>oc inputs e. node_class (h ! q) = Operation oc
          \<and> length inputs = length (input_nodes (h ! q))
          \<and> op_compute ops oc inputs = Inl e
          \<and> foldE (run_step ops) (p # ps) (h', fd) = Inl e"
        using ok(1) by auto
      then show ?thesis by blast
    qed
  next
    case ptr
    have "\<not> pointers_ok h (p # ps)"
      using ptr(2) by (auto simp: pointers_ok_def)
    moreover have "foldE (run_step ops) (p # ps) (h', fd) = Inl InvalidPointer"
      using ptr(1) by simp
    ultimately show ?thesis by blast
  next
    case cmp
    then have "\<exists>q\<in>set (p # ps). \<exists>oc inputs e. node_class (h ! q) = Operation oc
          \<and> length inputs = length (input_nodes (h ! q))
          \<and> op_compute ops oc inputs = Inl e
          \<and> foldE (run_step ops) (p # ps) (h', fd) = Inl e"
      by auto
    then show ?thesis by blast
  qed
qed

lemma reaches_target_valid: "reaches h rt n \<Longrightarrow> n < length h"
  by (induction rule: reaches.induct) simp_all

lemma Session_new_pointers_ok:
  assumes "heap_ok h" "rt < length h"
  shows "\<exists>sess. Session_new (Suc rt) h rt = Inr sess
            \<and> pointers_ok h (getOperations (graph sess))"
proof -
  from collect_collected[OF assms, of "Suc rt" Graph_new] obtain ps vs os where
    c: "collect (Suc rt) h rt Graph_new = Inr (graph_app Graph_new ps vs os)"
    and q: "collected h {n. reaches h rt n} ps vs os"
    by auto
  have "pointers_ok h os"
    unfolding pointers_ok_def list_all_iff
  proof (intro ballI conjI)
    fix p assume "p \<in> set os"
    then have "reaches h rt p" using q by (auto simp: collected_def)
    then show p: "p < length h" by (rule reaches_target_valid)
    fix i assume "i \<in> set (input_nodes (h ! p))"
    then have "i < p" using heap_ok_input[OF assms(1) p] by blast
    then show "i < length h" using p by simp
  qed
  then show ?thesis
    unfolding Session_new_def c
    by (simp add: bindE_def getOperations_def Graph_new_def)
qed

lemma computes_ok_subset:
  "computes_ok ops h ps \<Longrightarrow> set qs \<subseteq> set ps \<Longrightarrow> computes_ok ops h qs"
  unfolding computes_ok_def by blast

text \<open>
  Claim C5, as the source has it.  \<open>Session::run\<close> has no error for a placeholder that
  is missing from the feed, and does not stop there.  Whatever the feed, also one that
  lacks a placeholder reachable from the root: a run over valid pointers whose operations
  all compute returns normally; so does the run of the session that \<open>Session_new\<close>
  builds from a root of a well-formed heap, when the operations of the heap all compute;
  a run that fails fails with an invalid pointer on the session's list of operations, or
  with the error of the \<open>compute\<close> of an operation on that list; and the step of \<open>run\<close>
  for a placeholder that the feed lacks succeeds, \<open>feed_dict[node]\<close> inserting and
  returning the default tensor.
\<close>

theorem run_raises_no_unbound_placeholder:
  "(pointers_ok h (getOperations (graph sess))
      \<and> computes_ok ops h (getOperations (graph sess))
      \<longrightarrow> (\<exists>h' feed_dict'. run ops sess feed_dict h = Inr (h', feed_dict')))
   \<and> (heap_ok h \<and> rt < length h \<and> computes_ok ops h [0..<length h]
      \<longrightarrow> (\<exists>sess' h' feed_dict'. Session_new (Suc rt) h rt = Inr sess'
             \<and> run ops sess' feed_dict h = Inr (h', feed_dict')))
   \<and> (run ops sess feed_dict h = Inl e
      \<longrightarrow> (e = InvalidPointer \<and> \<not> pointers_ok h (getOperations (graph sess)))
          \<or> (\<exists>q\<in>set (getOperations (graph sess)). \<exists>oc inputs.
                node_class (h ! q) = Operation oc
                \<and> length inputs = length (input_nodes (h ! q))
                \<and> op_compute ops oc inputs = Inl e))
   \<and> (deref h p = Inr node \<and> getNodeType node = PLACEHOLDER \<and> feed_dict p = None
      \<longrightarrow> run_step ops p (h, feed_dict)
            = Inr (setOutput h p (Tensor0 ops), feed_dict(p \<mapsto> Tensor0 ops)))"
proof -
  have main: "\<exists>h' fd'. run ops s fd h = Inr (h', fd')"
    if "pointers_ok h (getOperations (graph s))" "computes_ok ops h (getOperations (graph s))"
    for s fd
  proof -
    from run_fold_cases[OF same_graph_refl, of ops "getOperations (graph s)" h fd] that
    show ?thesis
      unfolding run_def computes_ok_def by fastforce
  qed
  have built: "\<exists>sess' h' fd'. Session_new (Suc rt) h rt = Inr sess'
             \<and> run ops sess' feed_dict h = Inr (h', fd')"
    if "heap_ok h" "rt < length h" "computes_ok ops h [0..<length h]"
  proof -
    from Session_new_pointers_ok[OF that(1,2)] obtain s where
      s: "Session_new (Suc rt) h rt = Inr s" and p: "pointers_ok h (getOperations (graph s))"
      by blast
    have "set (getOperations (graph s)) \<subseteq> set [0..<length h]"
      using p by (auto simp: pointers_ok_def list_all_iff)
    then have "computes_ok ops h (getOperations (graph s))"
      by (rule computes_ok_subset[OF that(3)])
    from main[OF p this] s show ?thesis by blast
  qed
  have fail: "(e = InvalidPointer \<and> \<not> pointers_ok h (getOperations (graph sess)))
          \<or> (\<exists>q\<in>set (getOperations (graph sess)). \<exists>oc inputs.
                node_class (h ! q) = Operation oc
                \<and> length inputs = length (input_nodes (h ! q))
                \<and> op_compute ops oc inputs = Inl e)"
    if "run ops sess feed_dict h = Inl e"
    using run_fold_cases[OF same_graph_refl, of ops "getOperations (graph sess)" h feed_dict] that
    unfolding run_def by auto
  have step: "run_step ops p (h, feed_dict)
            = Inr (setOutput h p (Tensor0 ops), feed_dict(p \<mapsto> Tensor0 ops))"
    if "deref h p = Inr node \<and> getNodeType node = PLACEHOLDER \<and> feed_dict p = None"
    using that by (simp add: run_step_def bindE_def feed_index_def)
  from main built fail step show ?thesis by blast
qed


theorem run_raises_no_unbound_placeholder_witness:
  "heap_ok add_heap \<and> 2 < length add_heap
   \<and> computes_ok int_ops add_heap [0..<length add_heap]
   \<and> pointers_ok add_heap [2] \<and> computes_ok int_ops add_heap [2]
   \<and> reaches add_heap 2 0 \<and> getNodeType (add_heap ! 0) = PLACEHOLDER
   \<and> Session_new 3 add_heap 2
       = Inr \<lparr>graph = \<lparr>placeholders = [0], variables = [1], operations = [2]\<rparr>\<rparr>
   \<and> (\<exists>h' feed_dict'.
         run int_ops \<lparr>graph = \<lparr>placeholders = [0], variables = [1], operations = [2]\<rparr>\<rparr>
           Map.empty add_heap = Inr (h', feed_dict'))
   \<and> run int_ops \<lparr>graph = \<lparr>placeholders = [0], variables = [1], operations = [2]\<rparr>\<rparr>
        Map.empty add_heap = Inr (setOutput add_heap 2 (- 2), Map.empty)
   \<and> run int_ops \<lparr>graph = \<lparr>placeholders = [], variables = [], operations = [3]\<rparr>\<rparr>
        Map.empty add_heap = Inl InvalidPointer
   \<and> \<not> pointers_ok add_heap [3]
   \<and> deref add_heap 0 = Inr (add_heap ! 0)
   \<and> run_step int_ops 0 (add_heap, Map.empty)
       = Inr (setOutput add_heap 0 (- 1), [0 \<mapsto> - 1])"
proof -
  let ?s = "\<lparr>graph = \<lparr>placeholders = [0], variables = [1], operations = [2]\<rparr>\<rparr>"
  let ?bad = "\<lparr>graph = \<lparr>placeholders = [], variables = [], operations = [3]\<rparr>\<rparr>"
  have ok: "heap_ok add_heap" by (simp add: heap_ok_def add_heap_def upt_rec)
  have len: "2 < length add_heap" by (simp add: add_heap_def)
  have add: "\<exists>t. op_compute int_ops Add inputs = Inr t" if "length inputs = 2"
    for inputs :: "int list"
  proof -
    from that obtain a b where "inputs = [a, b]"
      by (auto simp: numeral_2_eq_2 length_Suc_conv)
    then show ?thesis by (simp add: int_ops_def bindE_def load_def)
  qed
  have call: "computes_ok int_ops add_heap [0..<length add_heap]"
    unfolding computes_ok_def
  proof (intro ballI allI impI)
    fix p oc and inputs :: "int list"
    assume p: "p \<in> set [0..<length add_heap]"
      and c: "node_class (add_heap ! p) = Operation oc"
      and l: "length inputs = length (input_nodes (add_heap ! p))"
    from p have "p = 0 \<or> p = 1 \<or> p = 2" by (auto simp: add_heap_def)
    with c l have "oc = Add \<and> length inputs = 2" by (auto simp: add_heap_def)
    then show "\<exists>t. op_compute int_ops oc inputs = Inr t" using add by blast
  qed
  have c2: "computes_ok int_ops add_heap [2]"
    by (rule computes_ok_subset[OF call]) (simp add: add_heap_def)
  have p2: "pointers_ok add_heap [2]" by (simp add: pointers_ok_def add_heap_def)
  have p3: "\<not> pointers_ok add_heap [3]" by (simp add: pointers_ok_def add_heap_def)
  have re: "reaches add_heap 2 0"
    by (rule reaches_input[where i = 0])
      (simp_all add: add_heap_def getNodeType_def reaches_self)
  have ty: "getNodeType (add_heap ! 0) = PLACEHOLDER"
    and d: "deref add_heap 0 = Inr (add_heap ! 0)"
    by (simp_all add: add_heap_def getNodeType_def deref_def)
  have sess: "Session_new 3 add_heap 2 = Inr ?s"
    by (simp add: add_heap_def numeral_3_eq_3 Session_new_def Graph_new_def bindE_def
        deref_def getNodeType_def)
  have bad: "run int_ops ?bad Map.empty add_heap = Inl InvalidPointer"
    by (simp add: add_heap_def graph_eval)
  note inst = run_raises_no_unbound_placeholder[of add_heap _ int_ops Map.empty _ _ 0 "add_heap ! 0"]
  have ex: "\<exists>h' feed_dict'. run int_ops ?s Map.empty add_heap = Inr (h', feed_dict')"
    using inst[of ?s 2 InvalidPointer] p2 c2 by (simp add: getOperations_def)
  have built: "\<exists>sess' h' feed_dict'. Session_new (Suc 2) add_heap 2 = Inr sess'
      \<and> run int_ops sess' Map.empty add_heap = Inr (h', feed_dict')"
    using inst[of ?s 2 InvalidPointer] ok len call by blast
  have fails: "\<not> pointers_ok add_heap (getOperations (graph ?bad))
      \<or> (\<exists>q\<in>set (getOperations (graph ?bad)). \<exists>oc inputs.
            node_class (add_heap ! q) = Operation oc
            \<and> length inputs = length (input_nodes (add_heap ! q))
            \<and> op_compute int_ops oc inputs = Inl InvalidPointer)"
    using inst[of ?bad 2 InvalidPointer] bad by blast
  have "run_step int_ops 0 (add_heap, Map.empty)
      = Inr (setOutput add_heap 0 (Tensor0 int_ops), Map.empty(0 \<mapsto> Tensor0 int_ops))"
    using inst[of ?s 2 InvalidPointer] d ty by simp
  then have step: "run_step int_ops 0 (add_heap, Map.empty)
      = Inr (setOutput add_heap 0 (- 1), [0 \<mapsto> - 1])"
    by (simp add: int_ops_def)
  have r: "run int_ops ?s Map.empty add_heap = Inr (setOutput add_heap 2 (- 2), Map.empty)"
    by (simp add: add_heap_def graph_eval int_ops_def)
  from ok len call p2 c2 re ty sess ex built fails r bad p3 d step show ?thesis by blast
qed

text \<open>
  Claim C5 as stated fails: in the graph \<open>Add(x, v)\<close> the placeholder \<open>x\<close> (node 0) is
  reachable from the root (node 2) and the empty feed lacks it, and \<open>run\<close> returns
  normally.
\<close>

theorem run_counterexample:
  "Session_new 2 add_heap 2
     = Inr \<lparr>graph = \<lparr>placeholders = [0], variables = [1], operations = [2]\<rparr>\<rparr>
   \<and> reaches add_heap 2 0 \<and> getNodeType (add_heap ! 0) = PLACEHOLDER
   \<and> run int_ops \<lparr>graph = \<lparr>placeholders = [0], variables = [1], operations = [2]\<rparr>\<rparr>
        Map.empty add_heap
       = Inr (setOutput add_heap 2 (- 2), Map.empty)"
proof -
  have "reaches add_heap 2 0"
    by (rule reaches_input[where i = 0])
      (simp_all add: add_heap_def getNodeType_def reaches_self)
  then show ?thesis
    by (simp add: add_heap_def numeral_2_eq_2 graph_eval int_ops_def)
qed

text \<open>
  Claim C3 fails.  \<open>run\<close> walks \<open>graph.getOperations()\<close> only, so the cases of its
  switch for placeholders and variables never run.  In the graph \<open>Add(x, v)\<close> with the
  feed \<open>x = 7\<close> and the variable's value 5, \<open>run\<close> changes the output of the sum only
  (node 2): the outputs of \<open>x\<close> and \<open>v\<close> are still the default tensor (\<open>-1\<close> here), not 7
  and 5, and the output of the sum is computed from these defaults, \<open>-2\<close>, not 12.
\<close>

theorem run_skips_placeholders_and_variables:
  "Session_new 2 add_heap 2
     = Inr \<lparr>graph = \<lparr>placeholders = [0], variables = [1], operations = [2]\<rparr>\<rparr>
   \<and> run int_ops \<lparr>graph = \<lparr>placeholders = [0], variables = [1], operations = [2]\<rparr>\<rparr>
        [0 \<mapsto> 7] add_heap
       = Inr (setOutput add_heap 2 (- 2), [0 \<mapsto> 7])
   \<and> map node_output (setOutput add_heap 2 (- 2)) = [- 1, - 1, - 2]
   \<and> var_value (add_heap ! 1) = 5"
  by (simp add: add_heap_def numeral_2_eq_2 graph_eval int_ops_def)

end
